theory Spec2Isabelle
  imports Complex_Main "HOL-Library.AList"
begin

section \<open>The assignment controller (gui.py, class MainWindow)\<close>

text \<open>
  The controller of \<^verbatim>\<open>gui.py\<close> keeps two dictionaries: \<^verbatim>\<open>loop_states\<close>, from a loop's
  name to a pair (state, bot name or None), and \<^verbatim>\<open>bot_pool\<close>, from a bot's name to its
  port, the loop it is assigned to (or None) and the time it was last used. States are
  Python ints: 0 is OFF, 1 is LISTEN, 2 is TALK. Times are the floats of
  \<^verbatim>\<open>time.time()\<close>; only their order is used, so they are reals here.
\<close>

text \<open>
  A loop of the JSON file \<^verbatim>\<open>LOOPS\<close> is read from; the two flags are the truth values
  of its \<^verbatim>\<open>can_listen\<close> and \<^verbatim>\<open>can_talk\<close> entries.
\<close>

record loop =
  name :: string
  can_listen :: bool
  can_talk :: bool

record bot =
  port :: int
  assigned :: "string option"
  last_used :: real

text \<open>The body of a request and the two ways the controller issues one.\<close>

datatype payload = NoJson | JsonLoop string | JsonSeconds int

datatype request = Request int string payload

datatype call = Post request | Timer int request

datatype error = KeyError | RequestException

text \<open>
  \<^verbatim>\<open>bot_pool\<close> is an association list in the dictionary's insertion order, which
  \<^verbatim>\<open>_find_idle_bot\<close> iterates. \<open>sent\<close> records every \<^verbatim>\<open>requests.post\<close> call and every
  started \<^verbatim>\<open>threading.Timer\<close>, in order; \<open>ticks\<close> counts the calls of \<^verbatim>\<open>time.time()\<close>.
\<close>

record MainWindow =
  delay_enabled :: bool
  delay_seconds :: int
  loop_states :: "string \<rightharpoonup> int \<times> string option"
  bot_pool :: "(string \<times> bot) list"
  sent :: "call list"
  ticks :: nat

text \<open>
  What the controller cannot decide: whether a \<^verbatim>\<open>requests.post\<close> returns or raises (it
  may depend on everything sent so far), and what the clock reads at its n-th reading.
\<close>

record env =
  post_ok :: "call list \<Rightarrow> request \<Rightarrow> bool"
  time_time :: "nat \<Rightarrow> real"

definition BOTS :: "(string \<times> int) list" where
  "BOTS = [(''BOT1'', 6001), (''BOT2'', 6002), (''BOT3'', 6003)]"

text \<open>\<^verbatim>\<open>{loop["name"]: loop for loop in LOOPS}\<close>: a later loop of the same name wins.\<close>

definition loop_configs :: "loop list \<Rightarrow> string \<rightharpoonup> loop" where
  "loop_configs LOOPS = map_of (map (\<lambda>l. (name l, l)) (rev LOOPS))"

definition init :: "loop list \<Rightarrow> MainWindow" where
  "init LOOPS =
     \<lparr>delay_enabled = False,
      delay_seconds = 3,
      loop_states = map_of (map (\<lambda>l. (name l, (0, None))) LOOPS),
      bot_pool = map (\<lambda>(n, p). (n, \<lparr>port = p, assigned = None, last_used = 0\<rparr>)) BOTS,
      sent = [],
      ticks = 0\<rparr>"

subsection \<open>Sequencing, requests and the clock\<close>

text \<open>An exception leaves the slot with the state as mutated so far.\<close>

definition then_do ::
  "(error + 'a) \<times> MainWindow \<Rightarrow> ('a \<Rightarrow> MainWindow \<Rightarrow> (error + 'b) \<times> MainWindow) \<Rightarrow>
   (error + 'b) \<times> MainWindow" where
  "then_do r k = (case r of (Inl e, w) \<Rightarrow> (Inl e, w) | (Inr x, w) \<Rightarrow> k x w)"

definition post :: "env \<Rightarrow> request \<Rightarrow> MainWindow \<Rightarrow> (error + unit) \<times> MainWindow" where
  "post E r w =
     ((if post_ok E (sent w) r then Inr () else Inl RequestException),
      w\<lparr>sent := sent w @ [Post r]\<rparr>)"

definition start_timer :: "int \<Rightarrow> request \<Rightarrow> MainWindow \<Rightarrow> MainWindow" where
  "start_timer secs r w = w\<lparr>sent := sent w @ [Timer secs r]\<rparr>"

definition now :: "env \<Rightarrow> MainWindow \<Rightarrow> real" where
  "now E w = time_time E (ticks w)"

definition tick :: "MainWindow \<Rightarrow> MainWindow" where
  "tick w = w\<lparr>ticks := Suc (ticks w)\<rparr>"

text \<open>Python's truth value of a bot name that may be None: None and the empty string are false.\<close>

definition truthy :: "string option \<Rightarrow> string option" where
  "truthy b = (case b of None \<Rightarrow> None | Some s \<Rightarrow> if s = [] then None else Some s)"

text \<open>
  \<^verbatim>\<open>self.bot_pool[b]["assigned"] = v\<close> and \<^verbatim>\<open>self.bot_pool[b]["last_used"] = t\<close>. The
  source writes them only after it has read \<^verbatim>\<open>self.bot_pool[b]\<close>, so the key is present.
\<close>

definition set_assigned :: "string \<Rightarrow> string option \<Rightarrow> MainWindow \<Rightarrow> MainWindow" where
  "set_assigned b v w = w\<lparr>bot_pool := AList.map_entry b (\<lambda>d. d\<lparr>assigned := v\<rparr>) (bot_pool w)\<rparr>"

definition set_last_used :: "string \<Rightarrow> real \<Rightarrow> MainWindow \<Rightarrow> MainWindow" where
  "set_last_used b t w = w\<lparr>bot_pool := AList.map_entry b (\<lambda>d. d\<lparr>last_used := t\<rparr>) (bot_pool w)\<rparr>"

definition set_loop_state :: "string \<Rightarrow> int \<times> string option \<Rightarrow> MainWindow \<Rightarrow> MainWindow" where
  "set_loop_state l v w = w\<lparr>loop_states := (loop_states w)(l \<mapsto> v)\<rparr>"

subsection \<open>\<^verbatim>\<open>_find_idle_bot\<close>\<close>

text \<open>
  The idle bots in dictionary order, sorted by \<^verbatim>\<open>last_used\<close> with Python's stable sort
  (\<open>sort_key\<close> is a stable insertion sort), the first one's name returned.
\<close>

definition find_idle_bot :: "(string \<times> bot) list \<Rightarrow> string option" where
  "find_idle_bot pool =
     (let idle_bots = filter (\<lambda>(n, d). assigned d = None) pool in
      if idle_bots = [] then None
      else Some (fst (hd (sort_key (\<lambda>x. last_used (snd x)) idle_bots))))"

subsection \<open>\<^verbatim>\<open>_update_bot_assignment\<close>\<close>

text \<open>Lines 342 to 353: the transition to OFF.\<close>

definition release_loop ::
  "env \<Rightarrow> string \<Rightarrow> int \<Rightarrow> string option \<Rightarrow> MainWindow \<Rightarrow> (error + unit) \<times> MainWindow" where
  "release_loop E loop_name old_state old_bot w =
     (case truthy old_bot of
        None \<Rightarrow> (Inr (), set_loop_state loop_name (0, None) w)
      | Some b \<Rightarrow>
          (case map_of (bot_pool w) b of
             None \<Rightarrow> (Inl KeyError, w)
           | Some d \<Rightarrow>
               then_do
                 (if delay_enabled w \<and> old_state = 2
                  then post E (Request (port d) ''/leave_after_delay'' NoJson) w
                  else then_do (post E (Request (port d) ''/leave'' NoJson) w)
                         (\<lambda>_. post E (Request (port d) ''/mute'' NoJson)))
                 (\<lambda>_ w1. (Inr (),
                    set_loop_state loop_name (0, None)
                      (tick (set_last_used b (now E w1) (set_assigned b None w1)))))))"

text \<open>Lines 363 to 376: the scan over the other loops before a loop starts to talk.\<close>

fun demote_others ::
  "env \<Rightarrow> string \<Rightarrow> loop list \<Rightarrow> MainWindow \<Rightarrow> (error + unit) \<times> MainWindow" where
  "demote_others E loop_name [] w = (Inr (), w)"
| "demote_others E loop_name (other_loop # rest) w =
     (if name other_loop = loop_name then demote_others E loop_name rest w
      else
        (case loop_states w (name other_loop) of
           None \<Rightarrow> (Inl KeyError, w)
         | Some (ostate, obot) \<Rightarrow>
             (case (if ostate = 2 then truthy obot else None) of
                None \<Rightarrow> demote_others E loop_name rest w
              | Some b \<Rightarrow>
                  (case map_of (bot_pool w) b of
                     None \<Rightarrow> (Inl KeyError, w)
                   | Some d \<Rightarrow>
                       then_do
                         (post E (Request (port d)
                            (if delay_enabled w then ''/mute_after_delay'' else ''/mute'') NoJson) w)
                         (\<lambda>_ w1. demote_others E loop_name rest
                            (tick (set_last_used b (now E w1)
                               (set_loop_state (name other_loop) (1, obot) w1))))))))"

text \<open>Lines 362 to 387: the commands for the new state, sent to the bot at \<open>p\<close>.\<close>

definition issue_commands ::
  "env \<Rightarrow> loop list \<Rightarrow> string \<Rightarrow> int \<Rightarrow> int \<Rightarrow> int \<Rightarrow> MainWindow \<Rightarrow>
   (error + unit) \<times> MainWindow" where
  "issue_commands E LOOPS loop_name old_state new_state p w =
     (if new_state = 2 then
        then_do (demote_others E loop_name LOOPS w)
          (\<lambda>_ w1. then_do (post E (Request p ''/join'' (JsonLoop loop_name)) w1)
             (\<lambda>_ w2. if delay_enabled w2
                then (Inr (), start_timer (delay_seconds w2) (Request p ''/talk'' NoJson) w2)
                else post E (Request p ''/talk'' NoJson) w2))
      else if new_state = 1 then
        (if old_state = 2 \<and> delay_enabled w
         then post E (Request p ''/mute_after_delay'' NoJson) w
         else then_do (post E (Request p ''/join'' (JsonLoop loop_name)) w)
                (\<lambda>_. post E (Request p ''/mute'' NoJson)))
      else (Inr (), w))"

text \<open>Lines 360 to 391, once the bot that serves the loop is known.\<close>

definition serve_loop ::
  "env \<Rightarrow> loop list \<Rightarrow> string \<Rightarrow> int \<Rightarrow> int \<Rightarrow> string \<Rightarrow> MainWindow \<Rightarrow>
   (error + unit) \<times> MainWindow" where
  "serve_loop E LOOPS loop_name old_state new_state assigned_bot w =
     (case map_of (bot_pool w) assigned_bot of
        None \<Rightarrow> (Inl KeyError, w)
      | Some d \<Rightarrow>
          then_do (issue_commands E LOOPS loop_name old_state new_state (port d) w)
            (\<lambda>_ w1. (Inr (),
               set_loop_state loop_name (new_state, Some assigned_bot)
                 (tick (set_last_used assigned_bot (now E w1)
                    (set_assigned assigned_bot (Some loop_name) w1))))))"

text \<open>Lines 338 to 340: what a listen-only loop makes of a request above LISTEN.\<close>

definition effective_state :: "loop \<Rightarrow> int \<Rightarrow> int" where
  "effective_state loop_cfg new_state =
     (if can_listen loop_cfg \<and> \<not> can_talk loop_cfg \<and> new_state > 1 then 0 else new_state)"

definition update_bot_assignment ::
  "env \<Rightarrow> loop list \<Rightarrow> string \<Rightarrow> int \<Rightarrow> MainWindow \<Rightarrow> (error + unit) \<times> MainWindow" where
  "update_bot_assignment E LOOPS loop_name requested w =
     (case loop_configs LOOPS loop_name of
        None \<Rightarrow> (Inl KeyError, w)
      | Some loop_cfg \<Rightarrow>
          (case loop_states w loop_name of
             None \<Rightarrow> (Inl KeyError, w)
           | Some (old_state, old_bot) \<Rightarrow>
               (let new_state = effective_state loop_cfg requested in
                if new_state = 0 then release_loop E loop_name old_state old_bot w
                else
                  (case truthy old_bot of
                     Some b \<Rightarrow> serve_loop E LOOPS loop_name old_state new_state b w
                   | None \<Rightarrow>
                       (case truthy (find_idle_bot (bot_pool w)) of
                          None \<Rightarrow> (Inr (), w)
                        | Some b \<Rightarrow>
                            serve_loop E LOOPS loop_name old_state new_state b
                              (set_assigned b (Some loop_name) w))))))"

subsection \<open>The slots\<close>

text \<open>
  \<^verbatim>\<open>_set_button_state\<close>, which both slots call last, only recolours a button: it reads
  \<^verbatim>\<open>loop_states\<close> at a key that is present and writes no controller field.
\<close>

definition on_loop_clicked ::
  "env \<Rightarrow> loop list \<Rightarrow> string \<Rightarrow> MainWindow \<Rightarrow> (error + unit) \<times> MainWindow" where
  "on_loop_clicked E LOOPS loop_name w =
     (case loop_configs LOOPS loop_name of
        None \<Rightarrow> (Inl KeyError, w)
      | Some cfg \<Rightarrow>
          (case loop_states w loop_name of
             None \<Rightarrow> (Inl KeyError, w)
           | Some (old_state, _) \<Rightarrow>
               if \<not> can_listen cfg then (Inr (), w)
               else
                 update_bot_assignment E LOOPS loop_name
                   (if old_state = 0 then 1
                    else if old_state = 1 then (if can_talk cfg then 2 else 1)
                    else if old_state = 2 then 1
                    else 1) w))"

definition on_loop_off_clicked ::
  "env \<Rightarrow> loop list \<Rightarrow> string \<Rightarrow> MainWindow \<Rightarrow> (error + unit) \<times> MainWindow" where
  "on_loop_off_clicked E LOOPS loop_name w = update_bot_assignment E LOOPS loop_name 0 w"

text \<open>
  \<^verbatim>\<open>toggle_delay\<close>: the flag flips first; the loop over the bots sits inside one
  \<^verbatim>\<open>try\<close>, so the first request that raises ends it, and the exception is dropped.
\<close>

fun post_each :: "env \<Rightarrow> request list \<Rightarrow> MainWindow \<Rightarrow> MainWindow" where
  "post_each E [] w = w"
| "post_each E (r # rs) w =
     (case post E r w of (Inl _, w1) \<Rightarrow> w1 | (Inr _, w1) \<Rightarrow> post_each E rs w1)"

definition toggle_delay :: "env \<Rightarrow> MainWindow \<Rightarrow> (error + unit) \<times> MainWindow" where
  "toggle_delay E w =
     (let w1 = w\<lparr>delay_enabled := \<not> delay_enabled w\<rparr> in
      (Inr (),
       post_each E
         (map (\<lambda>(n, d). if delay_enabled w1
                 then Request (port d) ''/delay_on'' (JsonSeconds (delay_seconds w1))
                 else Request (port d) ''/delay_off'' NoJson) (bot_pool w1)) w1))"

subsection \<open>Runs of the controller\<close>

text \<open>
  The operations that write \<^verbatim>\<open>loop_states\<close>, \<^verbatim>\<open>bot_pool\<close> or \<^verbatim>\<open>delay_enabled\<close>:
  the two slots of a loop button, \<^verbatim>\<open>_update_bot_assignment\<close> called with any state, and
  \<^verbatim>\<open>toggle_delay\<close>. The other methods of the window (polling, volume, audio devices)
  only read them.
\<close>

datatype operation =
    Click string
  | OffClick string
  | Update string int
  | ToggleDelay

fun run_op :: "env \<Rightarrow> loop list \<Rightarrow> operation \<Rightarrow> MainWindow \<Rightarrow> (error + unit) \<times> MainWindow" where
  "run_op E LOOPS (Click l) w = on_loop_clicked E LOOPS l w"
| "run_op E LOOPS (OffClick l) w = on_loop_off_clicked E LOOPS l w"
| "run_op E LOOPS (Update l s) w = update_bot_assignment E LOOPS l s w"
| "run_op E LOOPS ToggleDelay w = toggle_delay E w"

text \<open>
  The states between operations. The slots run one at a time on the thread of the
  window. An operation that raises leaves its slot by an unhandled exception, and PyQt6
  then ends the process (\<^verbatim>\<open>gui.py\<close> installs no exception hook): nothing is run from
  the state it leaves.
\<close>

inductive reachable :: "loop list \<Rightarrow> MainWindow \<Rightarrow> bool" for LOOPS where
  start: "reachable LOOPS (init LOOPS)"
| step: "reachable LOOPS w \<Longrightarrow> run_op E LOOPS opn w = (Inr (), w') \<Longrightarrow> reachable LOOPS w'"

text \<open>
  The states at every exit of an operation, returned or raised, with the run going on
  from either: what would be seen if something kept the window alive after an exception.
\<close>

inductive reachable_any :: "loop list \<Rightarrow> MainWindow \<Rightarrow> bool" for LOOPS where
  start_any: "reachable_any LOOPS (init LOOPS)"
| step_any: "reachable_any LOOPS w \<Longrightarrow> reachable_any LOOPS (snd (run_op E LOOPS opn w))"

subsection \<open>The properties of a controller state\<close>

text \<open>
  The two dictionaries read through \<^verbatim>\<open>bot_pool[b]["assigned"]\<close> and the keys of
  \<^verbatim>\<open>bot_pool\<close> in order.
\<close>

definition assignment :: "MainWindow \<Rightarrow> string \<rightharpoonup> string option" where
  "assignment w = map_of (map (\<lambda>(n, d). (n, assigned d)) (bot_pool w))"

definition bot_names :: "MainWindow \<Rightarrow> string list" where
  "bot_names w = map fst (bot_pool w)"

text \<open>At most one loop is in state TALK.\<close>

definition exclusive_talk :: "MainWindow \<Rightarrow> bool" where
  "exclusive_talk w \<longleftrightarrow>
     (\<forall>l1 l2 b1 b2. loop_states w l1 = Some (2, b1) \<longrightarrow> loop_states w l2 = Some (2, b2) \<longrightarrow> l1 = l2)"


text \<open>
  The invariant the proofs carry: the pool has the three bots of \<open>BOTS\<close>, every loop of
  \<open>LOOPS\<close> has a state, a loop is OFF exactly when it records no bot, and the two
  dictionaries agree on who serves whom.
\<close>

definition consistent :: "loop list \<Rightarrow> MainWindow \<Rightarrow> bool" where
  "consistent LOOPS w \<longleftrightarrow>
     bot_names w = map fst BOTS \<and>
     dom (loop_states w) = name ` set LOOPS \<and>
     (\<forall>l s bo. loop_states w l = Some (s, bo) \<longrightarrow> (s = 0 \<longleftrightarrow> bo = None)) \<and>
     (\<forall>l s b. loop_states w l = Some (s, Some b) \<longrightarrow> assignment w b = Some (Some l)) \<and>
     (\<forall>b l. assignment w b = Some (Some l) \<longrightarrow> (\<exists>s. loop_states w l = Some (s, Some b)))"

text \<open>
  The part of it that also holds in the state an operation leaves when a request raises
  (the dictionaries may then disagree in one way only: a bot is marked as assigned to a
  loop that is still OFF).
\<close>

definition sound :: "loop list \<Rightarrow> MainWindow \<Rightarrow> bool" where
  "sound LOOPS w \<longleftrightarrow>
     bot_names w = map fst BOTS \<and>
     dom (loop_states w) = name ` set LOOPS \<and>
     (\<forall>l s bo. loop_states w l = Some (s, bo) \<longrightarrow> (s = 0 \<longleftrightarrow> bo = None)) \<and>
     (\<forall>l s b. loop_states w l = Some (s, Some b) \<longrightarrow> assignment w b = Some (Some l))"

text \<open>
  What the scan of \<open>demote_others\<close> has done to \<^verbatim>\<open>loop_states\<close> once it has visited
  the loops named in \<open>S\<close>: every one of them but \<open>lp\<close> that was in TALK with a bot is in
  LISTEN with that bot.
\<close>

definition demote ::
  "string \<Rightarrow> string set \<Rightarrow> (string \<rightharpoonup> int \<times> string option) \<Rightarrow> (string \<rightharpoonup> int \<times> string option)" where
  "demote lp S m =
     (\<lambda>l. if l \<in> S \<and> l \<noteq> lp
          then (case m l of
                  None \<Rightarrow> None
                | Some (s, bo) \<Rightarrow> if s = 2 \<and> truthy bo \<noteq> None then Some (1, bo) else Some (s, bo))
          else m l)"

text \<open>The two ways \<^verbatim>\<open>_update_bot_assignment\<close> changes the dictionaries when it returns.\<close>

definition served :: "loop list \<Rightarrow> string \<Rightarrow> int \<Rightarrow> string \<Rightarrow> MainWindow \<Rightarrow> MainWindow \<Rightarrow> bool" where
  "served LOOPS lp ns b w w' \<longleftrightarrow>
     b \<in> dom (assignment w) \<and>
     assignment w' = (assignment w)(b \<mapsto> Some lp) \<and>
     loop_states w' =
       (if ns = 2 then demote lp (name ` set LOOPS) (loop_states w) else loop_states w)
       (lp \<mapsto> (ns, Some b))"

definition released :: "string \<Rightarrow> string option \<Rightarrow> MainWindow \<Rightarrow> MainWindow \<Rightarrow> bool" where
  "released lp bo w w' \<longleftrightarrow>
     loop_states w' = (loop_states w)(lp \<mapsto> (0, None)) \<and>
     (case truthy bo of
        None \<Rightarrow> assignment w' = assignment w
      | Some b \<Rightarrow> b \<in> dom (assignment w) \<and> assignment w' = (assignment w)(b \<mapsto> None))"

text \<open>No dictionary lookup of the scan can miss: every loop to visit has a state, every
  recorded bot is in the pool.\<close>

definition ready :: "loop list \<Rightarrow> MainWindow \<Rightarrow> bool" where
  "ready ls w \<longleftrightarrow>
     (\<forall>l \<in> set ls. name l \<in> dom (loop_states w)) \<and>
     (\<forall>l s b. loop_states w l = Some (s, Some b) \<longrightarrow> b \<in> dom (assignment w))"

subsection \<open>Concrete loops, environments and runs\<close>

text \<open>An environment in which every request is delivered, and one in which none is.\<close>

definition delivered :: env where
  "delivered = \<lparr>post_ok = (\<lambda>_ _. True), time_time = (\<lambda>n. 100 + real n)\<rparr>"

definition refused :: env where
  "refused = \<lparr>post_ok = (\<lambda>_ _. False), time_time = (\<lambda>n. 100 + real n)\<rparr>"

definition two_loops :: "loop list" where
  "two_loops = [\<lparr>name = ''A'', can_listen = True, can_talk = True\<rparr>,
                \<lparr>name = ''B'', can_listen = True, can_talk = True\<rparr>]"

definition four_loops :: "loop list" where
  "four_loops = [\<lparr>name = ''A'', can_listen = True, can_talk = True\<rparr>,
                 \<lparr>name = ''B'', can_listen = True, can_talk = True\<rparr>,
                 \<lparr>name = ''C'', can_listen = True, can_talk = False\<rparr>,
                 \<lparr>name = ''D'', can_listen = True, can_talk = True\<rparr>]"

definition listen_only :: "loop list" where
  "listen_only = [\<lparr>name = ''C'', can_listen = True, can_talk = False\<rparr>]"

definition no_listen :: "loop list" where
  "no_listen = [\<lparr>name = ''D'', can_listen = False, can_talk = False\<rparr>]"

text \<open>The state after clicking the loops of a list in turn, from the initial state.\<close>

definition clicks :: "env \<Rightarrow> loop list \<Rightarrow> string list \<Rightarrow> MainWindow" where
  "clicks E LOOPS ls = foldl (\<lambda>w l. snd (on_loop_clicked E LOOPS l w)) (init LOOPS) ls"

text \<open>Loop A clicked once and then switched off: BOT1 is idle again, and used last.\<close>

definition after_release :: MainWindow where
  "after_release =
     snd (on_loop_off_clicked delivered two_loops ''A'' (clicks delivered two_loops [''A'']))"

section \<open>The bot (bot_server.py, class LoopBot)\<close>

text \<open>
  Python floats enter the bot from JSON, which admits infinities and NaN. The bot only
  compares them and adds timestamps to them, so a float is a real, an infinity or NaN;
  every comparison with NaN is false.
\<close>

datatype pyfloat = Finite real | PosInf | NegInf | NaN

datatype float_error = TypeError | ValueError | OverflowError

fun float_lt :: "pyfloat \<Rightarrow> pyfloat \<Rightarrow> bool" where
  "float_lt (Finite x) (Finite y) = (x < y)"
| "float_lt (Finite x) PosInf = True"
| "float_lt NegInf (Finite y) = True"
| "float_lt NegInf PosInf = True"
| "float_lt _ _ = False"

text \<open>
  Python's \<^verbatim>\<open>min(a, b)\<close> keeps \<open>a\<close> unless \<open>b < a\<close>, and \<^verbatim>\<open>max(a, b)\<close> keeps \<open>a\<close>
  unless \<open>b > a\<close>.
\<close>

definition py_min :: "pyfloat \<Rightarrow> pyfloat \<Rightarrow> pyfloat" where
  "py_min a b = (if float_lt b a then b else a)"

definition py_max :: "pyfloat \<Rightarrow> pyfloat \<Rightarrow> pyfloat" where
  "py_max a b = (if float_lt a b then b else a)"

text \<open>Adding a finite float, the way infinities and NaN absorb it.\<close>

fun float_plus :: "pyfloat \<Rightarrow> real \<Rightarrow> pyfloat" where
  "float_plus (Finite x) r = Finite (x + r)"
| "float_plus v r = v"

type_synonym pcm = "nat list"

text \<open>
  The bot's threads share its fields without locks. Here each request handler, each
  microphone callback and each stretch of the delay worker between two blocking calls
  (\<^verbatim>\<open>queue.get\<close> and \<^verbatim>\<open>time.sleep\<close>) is one step, and the steps interleave in any order.
  The delay worker is either blocked in \<^verbatim>\<open>get\<close> or asleep, holding the frame it took
  until the time its \<^verbatim>\<open>time.sleep\<close> ends.
  \<open>sound_output\<close> says whether \<^verbatim>\<open>self.client\<close> has a sound output; \<open>added_sound\<close> lists the
  frames handed to \<^verbatim>\<open>sound_output.add_sound\<close>, in order. \<open>audio_delay_seconds\<close> is None
  for a JSON value that is not a number.
\<close>

datatype worker = Blocked | Sleeping "real \<times> pcm" real

record LoopBot =
  loop :: "string option"
  streaming :: bool
  playback_volume :: pyfloat
  audio_delay_enabled :: bool
  audio_delay_seconds :: "pyfloat option"
  audio_delay_queue :: "(real \<times> pcm) list"
  delay_thread :: worker
  sound_output :: bool
  added_sound :: "pcm list"

text \<open>\<^verbatim>\<open>LoopBot.__init__\<close>.\<close>

definition new_bot :: "bool \<Rightarrow> LoopBot" where
  "new_bot out =
     \<lparr>loop = None, streaming = False, playback_volume = Finite 1,
      audio_delay_enabled = False, audio_delay_seconds = Some (Finite 3),
      audio_delay_queue = [], delay_thread = Blocked, sound_output = out, added_sound = []\<rparr>"

definition enable_audio_delay :: "pyfloat option \<Rightarrow> LoopBot \<Rightarrow> LoopBot" where
  "enable_audio_delay seconds s = s\<lparr>audio_delay_enabled := True, audio_delay_seconds := seconds\<rparr>"

text \<open>The loop of \<^verbatim>\<open>disable_audio_delay\<close>: \<^verbatim>\<open>get_nowait\<close> until the queue is empty.\<close>

fun flush :: "(real \<times> pcm) list \<Rightarrow> (real \<times> pcm) list" where
  "flush [] = []"
| "flush (f # q) = flush q"

definition disable_audio_delay :: "LoopBot \<Rightarrow> LoopBot" where
  "disable_audio_delay s =
     s\<lparr>audio_delay_enabled := False, audio_delay_queue := flush (audio_delay_queue s)\<rparr>"

definition add_sound :: "pcm \<Rightarrow> LoopBot \<Rightarrow> LoopBot" where
  "add_sound p s = s\<lparr>added_sound := added_sound s @ [p]\<rparr>"

text \<open>
  \<^verbatim>\<open>if self.streaming and self.client and getattr(self.client, "sound_output", None)\<close>,
  as the worker and the microphone callback both have it.
\<close>

definition play_if_talking :: "pcm \<Rightarrow> LoopBot \<Rightarrow> LoopBot" where
  "play_if_talking p s = (if streaming s \<and> sound_output s then add_sound p s else s)"

text \<open>\<^verbatim>\<open>(tstamp + self.audio_delay_seconds) - time.time()\<close>, with the clock reading \<open>t\<close>.\<close>

definition wait_needed :: "real \<Rightarrow> pyfloat option \<Rightarrow> real \<Rightarrow> float_error + pyfloat" where
  "wait_needed tstamp seconds t =
     (case seconds of
        None \<Rightarrow> Inl TypeError
      | Some v \<Rightarrow> Inr (float_plus (float_plus v tstamp) (- t)))"

text \<open>
  \<^verbatim>\<open>_delay_audio_worker\<close> from the return of \<^verbatim>\<open>get\<close> to the next blocking call. An
  exception (the wait cannot be computed, or \<^verbatim>\<open>time.sleep\<close> refuses an infinite wait) is
  caught by the loop's \<^verbatim>\<open>except\<close>, and the frame is lost. A finite wait \<open>x\<close> begun at
  \<open>t\<close> ends at \<open>t + x\<close> or later.
\<close>

definition delay_audio_worker_get :: "real \<Rightarrow> LoopBot \<Rightarrow> LoopBot" where
  "delay_audio_worker_get t s =
     (case audio_delay_queue s of
        [] \<Rightarrow> s
      | (tstamp, p) # q \<Rightarrow>
          (let s1 = s\<lparr>audio_delay_queue := q\<rparr> in
           if \<not> audio_delay_enabled s1 then s1
           else
             (case wait_needed tstamp (audio_delay_seconds s1) t of
                Inl e \<Rightarrow> s1
              | Inr w \<Rightarrow>
                  if float_lt (Finite 0) w
                  then (case w of
                          Finite x \<Rightarrow> s1\<lparr>delay_thread := Sleeping (tstamp, p) (t + x)\<rparr>
                        | _ \<Rightarrow> s1)
                  else play_if_talking p s1)))"

text \<open>
  \<^verbatim>\<open>_delay_audio_worker\<close> from the return of \<^verbatim>\<open>time.sleep\<close> to the next \<^verbatim>\<open>get\<close>, at
  clock reading \<open>t\<close>: the sleep does not end before its time.
\<close>

definition delay_audio_worker_wake :: "real \<Rightarrow> LoopBot \<Rightarrow> LoopBot" where
  "delay_audio_worker_wake t s =
     (case delay_thread s of
        Blocked \<Rightarrow> s
      | Sleeping (tstamp, p) u \<Rightarrow>
          if u \<le> t then play_if_talking p (s\<lparr>delay_thread := Blocked\<rparr>) else s)"

text \<open>
  \<^verbatim>\<open>_mic_callback\<close> at clock reading \<open>t\<close>; \<open>indata\<close> is None when there is no input or
  its conversion to PCM raises.
\<close>

definition mic_callback :: "real \<Rightarrow> pcm option \<Rightarrow> LoopBot \<Rightarrow> LoopBot" where
  "mic_callback t indata s =
     (case indata of
        None \<Rightarrow> s
      | Some p \<Rightarrow>
          if audio_delay_enabled s
          then s\<lparr>audio_delay_queue := audio_delay_queue s @ [(t, p)]\<rparr>
          else play_if_talking p s)"

definition talk :: "LoopBot \<Rightarrow> LoopBot" where
  "talk s = s\<lparr>streaming := True\<rparr>"

definition mute :: "LoopBot \<Rightarrow> LoopBot" where
  "mute s = s\<lparr>streaming := False\<rparr>"

definition join :: "string option \<Rightarrow> LoopBot \<Rightarrow> LoopBot" where
  "join loop_name s = s\<lparr>loop := loop_name\<rparr>"

text \<open>\<^verbatim>\<open>max(0.0, min(1.0, float(vol)))\<close>, on a float.\<close>

definition set_volume :: "pyfloat \<Rightarrow> LoopBot \<Rightarrow> LoopBot" where
  "set_volume vol s = s\<lparr>playback_volume := py_max (Finite 0) (py_min (Finite 1) vol)\<rparr>"

text \<open>
  The route \<^verbatim>\<open>/set_volume\<close>; its argument is what
  \<^verbatim>\<open>float(request.json.get('volume', 1.0))\<close> yields, a float or an exception.
\<close>

definition set_volume_route ::
  "float_error + pyfloat \<Rightarrow> LoopBot \<Rightarrow> (float_error + unit) \<times> LoopBot" where
  "set_volume_route vol s =
     (case vol of Inl e \<Rightarrow> (Inl e, s) | Inr v \<Rightarrow> (Inr (), set_volume v s))"

text \<open>
  The steps of a bot. The delayed routes \<^verbatim>\<open>/mute_after_delay\<close> and
  \<^verbatim>\<open>/leave_after_delay\<close> call \<^verbatim>\<open>mute\<close> and \<^verbatim>\<open>leave\<close> from a thread of their own, so they
  appear as \<open>Mute\<close> and \<open>Join None\<close> steps at the time that thread runs.
\<close>

datatype bot_event =
    Join "string option"
  | Talk
  | Mute
  | DelayOn "pyfloat option"
  | DelayOff
  | SetVolume "float_error + pyfloat"
  | MicCallback real "pcm option"
  | WorkerGet real
  | WorkerWake real
  | SoundOutput bool

fun bot_step :: "bot_event \<Rightarrow> LoopBot \<Rightarrow> LoopBot" where
  "bot_step (Join l) s = join l s"
| "bot_step Talk s = talk s"
| "bot_step Mute s = mute s"
| "bot_step (DelayOn seconds) s = enable_audio_delay seconds s"
| "bot_step DelayOff s = disable_audio_delay s"
| "bot_step (SetVolume v) s = snd (set_volume_route v s)"
| "bot_step (MicCallback t indata) s = mic_callback t indata s"
| "bot_step (WorkerGet t) s =
     (case delay_thread s of Blocked \<Rightarrow> delay_audio_worker_get t s | Sleeping f u \<Rightarrow> s)"
| "bot_step (WorkerWake t) s = delay_audio_worker_wake t s"
| "bot_step (SoundOutput b) s = s\<lparr>sound_output := b\<rparr>"

fun bot_run :: "bot_event list \<Rightarrow> LoopBot \<Rightarrow> LoopBot" where
  "bot_run [] s = s"
| "bot_run (e # es) s = bot_run es (bot_step e s)"

definition in_unit :: "pyfloat \<Rightarrow> bool" where
  "in_unit v \<longleftrightarrow> (\<exists>x. v = Finite x \<and> 0 \<le> x \<and> x \<le> 1)"

text \<open>The frame the sleeping worker holds, if any.\<close>

definition held :: "LoopBot \<Rightarrow> pcm set" where
  "held s = (case delay_thread s of Blocked \<Rightarrow> {} | Sleeping (t, p) u \<Rightarrow> {p})"

fun is_capture :: "bot_event \<Rightarrow> bool" where
  "is_capture (MicCallback t indata) = True"
| "is_capture _ = False"

text \<open>
  A bot with delay on that is talking, has captured one frame at time 10 and whose
  worker has taken it and sleeps on it; and a bot with two frames queued.
\<close>

definition captured :: LoopBot where
  "captured =
     bot_run [DelayOn (Some (Finite 3)), Talk, MicCallback 10 (Some [1, 2]), WorkerGet 10]
       (new_bot True)"

definition queued :: LoopBot where
  "queued =
     bot_run [DelayOn (Some (Finite 3)), Talk, MicCallback 10 (Some [1]), MicCallback 11 (Some [2])]
       (new_bot True)"

text \<open>
  The same bot in the middle of \<^verbatim>\<open>disable_audio_delay\<close>: the flag is cleared, the queue
  not yet drained.
\<close>

definition switching_off :: LoopBot where
  "switching_off = queued\<lparr>audio_delay_enabled := False\<rparr>"

section \<open>Proofs about the controller\<close>

subsection \<open>Frame facts: what each primitive leaves alone\<close>

lemma map_fst_map_entry: "map fst (AList.map_entry k f xs) = map fst xs"
  by (induction xs) auto

lemma map_of_assigned: "map_of (map (\<lambda>(n, d). (n, assigned d)) xs) b = map_option assigned (map_of xs b)"
  by (induction xs) auto

lemma assignment_eq: "assignment w b = map_option assigned (map_of (bot_pool w) b)"
  by (simp add: assignment_def map_of_assigned)

lemma then_do_Inr:
  "then_do r k = (Inr x, w') \<longleftrightarrow> (\<exists>y w1. r = (Inr y, w1) \<and> k y w1 = (Inr x, w'))"
  by (auto simp: then_do_def split: prod.splits sum.splits)

lemma post_Inr: "post E r w = (Inr u, w') \<longleftrightarrow> post_ok E (sent w) r \<and> w' = w\<lparr>sent := sent w @ [Post r]\<rparr>"
  by (auto simp: post_def)

lemma assignment_set_assigned:
  "assignment (set_assigned b v w) = (if b \<in> dom (assignment w) then (assignment w)(b \<mapsto> v) else assignment w)"
  by (rule ext) (auto simp: assignment_eq set_assigned_def map_of_map_entry split: option.splits)

lemma assignment_frame [simp]:
  "assignment (set_last_used b t w) = assignment w"
  "assignment (set_loop_state l v w) = assignment w"
  "assignment (tick w) = assignment w"
  "assignment (start_timer s r w) = assignment w"
  "assignment (w\<lparr>sent := x\<rparr>) = assignment w"
  "assignment (w\<lparr>delay_enabled := y\<rparr>) = assignment w"
  by (rule ext; simp add: assignment_eq set_last_used_def set_loop_state_def tick_def start_timer_def map_of_map_entry split: option.splits)+

lemma bot_names_frame [simp]:
  "bot_names (set_assigned b v w) = bot_names w"
  "bot_names (set_last_used b t w) = bot_names w"
  "bot_names (set_loop_state l x w) = bot_names w"
  "bot_names (tick w) = bot_names w"
  "bot_names (start_timer s r w) = bot_names w"
  "bot_names (w\<lparr>sent := y\<rparr>) = bot_names w"
  "bot_names (w\<lparr>delay_enabled := z\<rparr>) = bot_names w"
  by (simp_all add: bot_names_def set_assigned_def set_last_used_def set_loop_state_def tick_def start_timer_def map_fst_map_entry)

lemma loop_states_frame [simp]:
  "loop_states (set_assigned b v w) = loop_states w"
  "loop_states (set_last_used b t w) = loop_states w"
  "loop_states (set_loop_state l x w) = (loop_states w)(l \<mapsto> x)"
  "loop_states (tick w) = loop_states w"
  "loop_states (start_timer s r w) = loop_states w"
  by (simp_all add: set_assigned_def set_last_used_def set_loop_state_def tick_def start_timer_def)

lemma delay_frame [simp]:
  "delay_enabled (set_assigned b v w) = delay_enabled w"
  "delay_enabled (set_last_used b t w) = delay_enabled w"
  "delay_enabled (set_loop_state l x w) = delay_enabled w"
  "delay_enabled (tick w) = delay_enabled w"
  "delay_enabled (start_timer s r w) = delay_enabled w"
  by (simp_all add: set_assigned_def set_last_used_def set_loop_state_def tick_def start_timer_def)

lemma post_frame [simp]:
  "loop_states (snd (post E r w)) = loop_states w"
  "assignment (snd (post E r w)) = assignment w"
  "bot_names (snd (post E r w)) = bot_names w"
  "delay_enabled (snd (post E r w)) = delay_enabled w"
  "bot_pool (snd (post E r w)) = bot_pool w"
  by (simp_all add: post_def)

subsection \<open>The scan over the other loops\<close>

lemma demote_empty [simp]: "demote lp {} m = m"
  by (simp add: demote_def)

lemma demote_insert_self [simp]: "demote lp (insert lp S) m = demote lp S m"
  by (rule ext) (auto simp: demote_def)

lemma demote_demote: "demote lp S (demote lp T m) = demote lp (S \<union> T) m"
  by (rule ext) (auto simp: demote_def split: option.splits)

lemma demote_insert_idle:
  "m l = Some (s, bo) \<Longrightarrow> \<not> (s = 2 \<and> truthy bo \<noteq> None) \<Longrightarrow> demote lp (insert l S) m = demote lp S m"
  by (rule ext) (auto simp: demote_def split: option.splits)

lemma demote_upd:
  "m l = Some (2, bo) \<Longrightarrow> truthy bo \<noteq> None \<Longrightarrow> l \<noteq> lp \<Longrightarrow> m(l \<mapsto> (1, bo)) = demote lp {l} m"
  by (rule ext) (auto simp: demote_def split: option.splits)

lemma demote_others_frame:
  "assignment (snd (demote_others E lp ls w)) = assignment w \<and>
   bot_names (snd (demote_others E lp ls w)) = bot_names w \<and>
   delay_enabled (snd (demote_others E lp ls w)) = delay_enabled w"
proof (induction ls arbitrary: w)
  case Nil
  show ?case by simp
next
  case (Cons a ls)
  show ?case
    by (auto simp: Cons.IH then_do_def post_def split: option.splits prod.splits sum.splits if_splits)
qed

lemma demote_others_returned:
  "demote_others E lp ls w = (Inr u, w') \<Longrightarrow>
   loop_states w' = demote lp (name ` set ls) (loop_states w)"
proof (induction ls arbitrary: w)
  case Nil
  then show ?case by simp
next
  case (Cons a ls)
  show ?case
  proof (cases "name a = lp")
    case True
    with Cons.prems have "demote_others E lp ls w = (Inr u, w')" by simp
    from Cons.IH [OF this] True show ?thesis by simp
  next
    case False
    with Cons.prems obtain s bo where m: "loop_states w (name a) = Some (s, bo)"
      by (auto split: option.splits)
    show ?thesis
    proof (cases "s = 2 \<and> truthy bo \<noteq> None")
      case no: False
      with False m Cons.prems have "demote_others E lp ls w = (Inr u, w')"
        by (auto split: option.splits if_splits)
      from Cons.IH [OF this] demote_insert_idle [of "loop_states w" "name a" s bo lp "name ` set ls", OF m no]
      show ?thesis by simp
    next
      case yes: True
      then obtain b where b: "truthy bo = Some b" by auto
      with False m yes Cons.prems obtain d where d: "map_of (bot_pool w) b = Some d"
        by (auto split: option.splits)
      define w1 where "w1 = snd (post E (Request (port d)
         (if delay_enabled w then ''/mute_after_delay'' else ''/mute'') NoJson) w)"
      define w2 where "w2 = tick (set_last_used b (now E w1) (set_loop_state (name a) (1, bo) w1))"
      from False m yes b d Cons.prems have "demote_others E lp ls w2 = (Inr u, w')"
        by (auto simp: then_do_Inr post_Inr w1_def w2_def post_def)
      from Cons.IH [OF this] have "loop_states w' = demote lp (name ` set ls) (loop_states w2)" .
      also have "loop_states w2 = demote lp {name a} (loop_states w)"
        using demote_upd [of "loop_states w" "name a" bo lp] m yes False
        by (simp add: w2_def w1_def)
      finally show ?thesis by (simp add: demote_demote)
    qed
  qed
qed

lemma demote_others_any:
  "\<exists>S. loop_states (snd (demote_others E lp ls w)) = demote lp S (loop_states w)"
proof (induction ls arbitrary: w)
  case Nil
  show ?case by (rule exI [of _ "{}"]) simp
next
  case (Cons a ls)
  have stay: "\<exists>S. loop_states w = demote lp S (loop_states w)"
    by (rule exI [of _ "{}"]) simp
  show ?case
  proof (cases "name a = lp")
    case True
    with Cons.IH [of w] show ?thesis by simp
  next
    case False
    show ?thesis
    proof (cases "loop_states w (name a)")
      case None
      with False stay show ?thesis by simp
    next
      case (Some v)
      obtain s bo where v: "v = (s, bo)" by (cases v)
      show ?thesis
      proof (cases "s = 2 \<and> truthy bo \<noteq> None")
        case no: False
        with False Some v Cons.IH [of w] show ?thesis by auto
      next
        case yes: True
        then obtain b where b: "truthy bo = Some b" by auto
        show ?thesis
        proof (cases "map_of (bot_pool w) b")
          case None
          with False Some v yes b stay show ?thesis by simp
        next
          case d: (Some d)
          define r where "r = Request (port d)
             (if delay_enabled w then ''/mute_after_delay'' else ''/mute'') NoJson"
          show ?thesis
          proof (cases "post_ok E (sent w) r")
            case False
            then have "snd (demote_others E lp (a # ls) w) = snd (post E r w)"
              using \<open>name a \<noteq> lp\<close> Some v yes b d by (simp add: then_do_def post_def r_def)
            with stay show ?thesis by simp
          next
            case True
            define w2 where "w2 = tick (set_last_used b (now E (snd (post E r w)))
               (set_loop_state (name a) (1, bo) (snd (post E r w))))"
            from True have "demote_others E lp (a # ls) w = demote_others E lp ls w2"
              using \<open>name a \<noteq> lp\<close> Some v yes b d by (simp add: then_do_def post_def r_def w2_def)
            moreover obtain S where "loop_states (snd (demote_others E lp ls w2)) = demote lp S (loop_states w2)"
              using Cons.IH [of w2] by auto
            moreover have "loop_states w2 = demote lp {name a} (loop_states w)"
              using demote_upd [of "loop_states w" "name a" bo lp] Some v yes \<open>name a \<noteq> lp\<close>
              by (simp add: w2_def)
            ultimately have "loop_states (snd (demote_others E lp (a # ls) w)) = demote lp (S \<union> {name a}) (loop_states w)"
              by (simp add: demote_demote)
            then show ?thesis by blast
          qed
        qed
      qed
    qed
  qed
qed

subsection \<open>Serving and releasing a loop\<close>

lemma issue_commands_frame:
  "assignment (snd (issue_commands E LOOPS lp os ns p w)) = assignment w \<and>
   bot_names (snd (issue_commands E LOOPS lp os ns p w)) = bot_names w"
proof -
  let ?r = "demote_others E lp LOOPS w"
  have "assignment (snd ?r) = assignment w" "bot_names (snd ?r) = bot_names w"
    using demote_others_frame [of E lp LOOPS w] by simp_all
  then show ?thesis
    by (cases ?r) (auto simp: issue_commands_def then_do_def post_def start_timer_def
        split: sum.splits prod.splits)
qed

lemma issue_commands_returned:
  "issue_commands E LOOPS lp os ns p w = (Inr u, w') \<Longrightarrow>
   loop_states w' = (if ns = 2 then demote lp (name ` set LOOPS) (loop_states w) else loop_states w)"
  by (auto simp: issue_commands_def then_do_Inr post_Inr dest!: demote_others_returned
      split: if_splits)

lemma issue_commands_any:
  "\<exists>S. loop_states (snd (issue_commands E LOOPS lp os ns p w)) = demote lp S (loop_states w)"
proof (cases "ns = 2")
  case True
  obtain S where "loop_states (snd (demote_others E lp LOOPS w)) = demote lp S (loop_states w)"
    using demote_others_any by blast
  then have "loop_states (snd (issue_commands E LOOPS lp os ns p w)) = demote lp S (loop_states w)"
    using True
    by (cases "demote_others E lp LOOPS w")
       (auto simp: issue_commands_def then_do_def post_def start_timer_def split: sum.splits prod.splits)
  then show ?thesis ..
next
  case False
  then have "loop_states (snd (issue_commands E LOOPS lp os ns p w)) = demote lp {} (loop_states w)"
    by (auto simp: issue_commands_def then_do_def post_def split: sum.splits prod.splits)
  then show ?thesis ..
qed

lemma serve_loop_returned:
  assumes "serve_loop E LOOPS lp os ns b w = (Inr u, w')"
  shows "b \<in> dom (assignment w)"
    and "assignment w' = (assignment w)(b \<mapsto> Some lp)"
    and "bot_names w' = bot_names w"
    and "loop_states w' =
           (if ns = 2 then demote lp (name ` set LOOPS) (loop_states w) else loop_states w)
           (lp \<mapsto> (ns, Some b))"
proof -
  from assms obtain d where d: "map_of (bot_pool w) b = Some d"
    by (auto simp: serve_loop_def split: option.splits)
  with assms obtain w1 where w1: "issue_commands E LOOPS lp os ns (port d) w = (Inr (), w1)"
    and w': "w' = set_loop_state lp (ns, Some b)
                 (tick (set_last_used b (now E w1) (set_assigned b (Some lp) w1)))"
    by (auto simp: serve_loop_def then_do_Inr)
  from d show dom: "b \<in> dom (assignment w)" by (simp add: assignment_eq dom_def)
  have fr: "assignment w1 = assignment w" "bot_names w1 = bot_names w"
    using issue_commands_frame [of E LOOPS lp os ns "port d" w] w1 by simp_all
  from dom fr show "assignment w' = (assignment w)(b \<mapsto> Some lp)"
    by (simp add: w' assignment_set_assigned)
  from fr show "bot_names w' = bot_names w" by (simp add: w')
  from issue_commands_returned [OF w1] show "loop_states w' =
           (if ns = 2 then demote lp (name ` set LOOPS) (loop_states w) else loop_states w)
           (lp \<mapsto> (ns, Some b))"
    by (simp add: w')
qed

lemma serve_loop_raised:
  assumes "serve_loop E LOOPS lp os ns b w = (Inl e, w')"
  shows "assignment w' = assignment w" and "bot_names w' = bot_names w"
    and "\<exists>S. loop_states w' = demote lp S (loop_states w)"
proof -
  have stay: "\<exists>S. loop_states w = demote lp S (loop_states w)"
    by (rule exI [of _ "{}"]) simp
  show "assignment w' = assignment w"
    using assms issue_commands_frame [of E LOOPS lp os ns _ w]
    by (auto simp: serve_loop_def then_do_def split: option.splits sum.splits prod.splits)
       (metis snd_conv)
  show "bot_names w' = bot_names w"
    using assms issue_commands_frame [of E LOOPS lp os ns _ w]
    by (auto simp: serve_loop_def then_do_def split: option.splits sum.splits prod.splits)
       (metis snd_conv)
  show "\<exists>S. loop_states w' = demote lp S (loop_states w)"
    using assms issue_commands_any [of E LOOPS lp os ns _ w] stay
    by (auto simp: serve_loop_def then_do_def split: option.splits sum.splits prod.splits)
       (metis snd_conv)
qed

lemma release_loop_returned:
  assumes "release_loop E lp os bo w = (Inr u, w')"
  shows "bot_names w' = bot_names w"
    and "loop_states w' = (loop_states w)(lp \<mapsto> (0, None))"
    and "assignment w' = (case truthy bo of None \<Rightarrow> assignment w | Some b \<Rightarrow> (assignment w)(b \<mapsto> None))"
    and "\<And>b. truthy bo = Some b \<Longrightarrow> b \<in> dom (assignment w)"
  using assms
  by (auto simp: release_loop_def then_do_Inr post_Inr assignment_set_assigned assignment_eq
      split: option.splits if_splits)

lemma release_loop_raised:
  assumes "release_loop E lp os bo w = (Inl e, w')"
  shows "bot_names w' = bot_names w" and "loop_states w' = loop_states w"
    and "assignment w' = assignment w"
  using assms
  by (auto simp: release_loop_def then_do_def post_def split: option.splits if_splits)

subsection \<open>The idle bot that is least recently used; what an update does when it returns or raises\<close>

lemma hd_sort_key_least:
  assumes "xs \<noteq> []"
  shows "hd (sort_key f xs) \<in> set xs" and "\<forall>y \<in> set xs. f (hd (sort_key f xs)) \<le> f y"
proof -
  let ?ys = "sort_key f xs"
  from assms have ne: "?ys \<noteq> []" by (metis length_0_conv length_sort)
  then obtain z zs where ys: "?ys = z # zs" by (cases ?ys) auto
  have "set ?ys = set xs" by simp
  with ys show "hd ?ys \<in> set xs" by (metis hd_in_set ne)
  have "sorted (map f ?ys)" by (rule sorted_sort_key)
  with ys have "\<forall>y \<in> set (z # zs). f z \<le> f y" by auto
  with ys have "\<forall>y \<in> set ?ys. f (hd ?ys) \<le> f y" by simp
  then show "\<forall>y \<in> set xs. f (hd ?ys) \<le> f y" by simp
qed

lemma find_idle_bot_None:
  "find_idle_bot pool = None \<longleftrightarrow> (\<forall>(n, d) \<in> set pool. assigned d \<noteq> None)"
  by (auto simp: find_idle_bot_def Let_def filter_empty_conv split: prod.splits)

lemma find_idle_bot_Some:
  assumes "find_idle_bot pool = Some b"
  shows "\<exists>d. (b, d) \<in> set pool \<and> assigned d = None \<and>
           (\<forall>(n', d') \<in> set pool. assigned d' = None \<longrightarrow> last_used d \<le> last_used d')"
proof -
  let ?idle = "filter (\<lambda>(n, d). assigned d = None) pool"
  let ?h = "hd (sort_key (\<lambda>x. last_used (snd x)) ?idle)"
  from assms have ne: "?idle \<noteq> []" and b: "b = fst ?h"
    by (auto simp: find_idle_bot_def Let_def split: if_splits)
  from hd_sort_key_least [OF ne, of "\<lambda>x. last_used (snd x)"]
  have mem: "?h \<in> set ?idle" and least: "\<forall>y \<in> set ?idle. last_used (snd ?h) \<le> last_used (snd y)"
    by blast+
  from mem b have "(b, snd ?h) \<in> set pool" "assigned (snd ?h) = None" by auto
  moreover from least have "\<forall>(n', d') \<in> set pool. assigned d' = None \<longrightarrow> last_used (snd ?h) \<le> last_used d'"
    by auto
  ultimately show ?thesis by blast
qed

text \<open>
  Ties go to the first idle bot in the dictionary's order, as Python's stable sort has it.
\<close>

lemma hd_sort_key_first:
  assumes "xs \<noteq> []"
  shows "hd (sort_key f xs) = hd (filter (\<lambda>x. f x = f (hd (sort_key f xs))) xs)"
proof -
  let ?ys = "sort_key f xs"
  let ?k = "f (hd ?ys)"
  from assms have "?ys \<noteq> []" by (metis length_0_conv length_sort)
  then obtain z zs where ys: "?ys = z # zs" by (cases ?ys) auto
  have "filter (\<lambda>x. f x = ?k) ?ys = filter (\<lambda>x. f x = ?k) xs"
    by (rule sort_key_stable)
  moreover from ys have "hd (filter (\<lambda>x. f x = ?k) ?ys) = hd ?ys" by simp
  ultimately show ?thesis by simp
qed

lemma find_idle_bot_first_of_least:
  assumes "find_idle_bot pool = Some b"
  shows "\<exists>d. assigned d = None \<and>
           (\<forall>(n', d') \<in> set pool. assigned d' = None \<longrightarrow> last_used d \<le> last_used d') \<and>
           (b, d) = hd (filter (\<lambda>(n', d'). assigned d' = None \<and> last_used d' = last_used d) pool)"
proof -
  let ?idle = "filter (\<lambda>(n, d). assigned d = None) pool"
  let ?h = "hd (sort_key (\<lambda>x. last_used (snd x)) ?idle)"
  from assms have ne: "?idle \<noteq> []" and b: "b = fst ?h"
    by (auto simp: find_idle_bot_def Let_def split: if_splits)
  from hd_sort_key_least [OF ne, of "\<lambda>x. last_used (snd x)"]
  have mem: "?h \<in> set ?idle" and least: "\<forall>y \<in> set ?idle. last_used (snd ?h) \<le> last_used (snd y)"
    by blast+
  from mem have idle: "assigned (snd ?h) = None" by auto
  from least have l: "\<forall>(n', d') \<in> set pool. assigned d' = None \<longrightarrow> last_used (snd ?h) \<le> last_used d'"
    by auto
  have "(b, snd ?h) = ?h" using b by simp
  also have "?h = hd (filter (\<lambda>x. last_used (snd x) = last_used (snd ?h)) ?idle)"
    by (rule hd_sort_key_first [OF ne])
  also have "filter (\<lambda>x. last_used (snd x) = last_used (snd ?h)) ?idle =
     filter (\<lambda>(n', d'). assigned d' = None \<and> last_used d' = last_used (snd ?h)) pool"
    by (simp add: split_def)
  finally have "(b, snd ?h) = hd (filter (\<lambda>(n', d'). assigned d' = None \<and> last_used d' = last_used (snd ?h)) pool)" .
  with idle l show ?thesis by blast
qed

lemma find_idle_bot_assignment:
  assumes "find_idle_bot (bot_pool w) = Some b" and "distinct (bot_names w)"
  shows "assignment w b = Some None"
proof -
  from find_idle_bot_Some [OF assms(1)] obtain d where "(b, d) \<in> set (bot_pool w)" "assigned d = None"
    by blast
  with assms(2) show ?thesis by (simp add: assignment_eq bot_names_def)
qed

lemma update_returned:
  assumes "update_bot_assignment E LOOPS lp rq w = (Inr u, w')"
  shows "\<exists>cfg os bo. loop_configs LOOPS lp = Some cfg \<and> loop_states w lp = Some (os, bo) \<and>
           bot_names w' = bot_names w \<and>
           (if effective_state cfg rq = 0 then released lp bo w w'
            else case truthy bo of
                   Some b \<Rightarrow> served LOOPS lp (effective_state cfg rq) b w w'
                 | None \<Rightarrow>
                     (case truthy (find_idle_bot (bot_pool w)) of
                        None \<Rightarrow> w' = w
                      | Some b \<Rightarrow> served LOOPS lp (effective_state cfg rq) b w w'))"
proof -
  from assms obtain cfg where cfg: "loop_configs LOOPS lp = Some cfg"
    by (auto simp: update_bot_assignment_def split: option.splits)
  with assms obtain os bo where st: "loop_states w lp = Some (os, bo)"
    by (auto simp: update_bot_assignment_def split: option.splits)
  define ns where "ns = effective_state cfg rq"
  have "bot_names w' = bot_names w \<and>
           (if ns = 0 then released lp bo w w'
            else case truthy bo of
                   Some b \<Rightarrow> served LOOPS lp ns b w w'
                 | None \<Rightarrow>
                     (case truthy (find_idle_bot (bot_pool w)) of
                        None \<Rightarrow> w' = w
                      | Some b \<Rightarrow> served LOOPS lp ns b w w'))"
  proof (cases "ns = 0")
    case True
    with assms cfg st have r: "release_loop E lp os bo w = (Inr u, w')"
      by (simp add: update_bot_assignment_def ns_def)
    from release_loop_returned [OF r] True show ?thesis
      by (auto simp: released_def split: option.splits)
  next
    case False
    show ?thesis
    proof (cases "truthy bo")
      case (Some b)
      with assms cfg st False have r: "serve_loop E LOOPS lp os ns b w = (Inr u, w')"
        by (simp add: update_bot_assignment_def ns_def Let_def)
      from serve_loop_returned [OF r] Some False show ?thesis by (simp add: served_def)
    next
      case None
      show ?thesis
      proof (cases "truthy (find_idle_bot (bot_pool w))")
        case n2: None
        with None assms cfg st False show ?thesis
          by (simp add: update_bot_assignment_def ns_def Let_def)
      next
        case (Some b)
        with None assms cfg st False
        have r: "serve_loop E LOOPS lp os ns b (set_assigned b (Some lp) w) = (Inr u, w')"
          by (simp add: update_bot_assignment_def ns_def Let_def)
        from serve_loop_returned(1) [OF r] have dom: "b \<in> dom (assignment w)"
          by (simp add: assignment_set_assigned split: if_splits)
        with serve_loop_returned [OF r] Some None False show ?thesis
          by (simp add: assignment_set_assigned served_def)
      qed
    qed
  qed
  then show ?thesis using cfg st unfolding ns_def by blast
qed

lemma update_raised:
  assumes "update_bot_assignment E LOOPS lp rq w = (Inl e, w')"
  shows "\<exists>S. loop_states w' = demote lp S (loop_states w)"
proof -
  have stay: "\<exists>S. loop_states w = demote lp S (loop_states w)"
    by (rule exI [of _ "{}"]) simp
  show ?thesis
  proof (cases "loop_configs LOOPS lp")
    case None
    with assms stay show ?thesis by (simp add: update_bot_assignment_def)
  next
    case cfg: (Some cfg)
    show ?thesis
    proof (cases "loop_states w lp")
      case None
      with assms cfg stay show ?thesis by (simp add: update_bot_assignment_def)
    next
      case (Some v)
      obtain os bo where v: "v = (os, bo)" by (cases v)
      define ns where "ns = effective_state cfg rq"
      show ?thesis
      proof (cases "ns = 0")
        case True
        with assms cfg Some v have "release_loop E lp os bo w = (Inl e, w')"
          by (simp add: update_bot_assignment_def ns_def)
        from release_loop_raised(2) [OF this] stay show ?thesis by simp
      next
        case False
        show ?thesis
        proof (cases "truthy bo")
          case b: (Some b)
          with assms cfg Some v False have "serve_loop E LOOPS lp os ns b w = (Inl e, w')"
            by (simp add: update_bot_assignment_def ns_def Let_def)
          from serve_loop_raised(3) [OF this] show ?thesis .
        next
          case None
          show ?thesis
          proof (cases "truthy (find_idle_bot (bot_pool w))")
            case n2: None
            with None assms cfg Some v False show ?thesis
              by (simp add: update_bot_assignment_def ns_def Let_def)
          next
            case b: (Some b)
            with None assms cfg Some v False
            have "serve_loop E LOOPS lp os ns b (set_assigned b (Some lp) w) = (Inl e, w')"
              by (simp add: update_bot_assignment_def ns_def Let_def)
            from serve_loop_raised(3) [OF this] show ?thesis by simp
          qed
        qed
      qed
    qed
  qed
qed

subsection \<open>Facts about the pool and about demoted loop states\<close>

lemma dom_assignment: "dom (assignment w) = set (bot_names w)"
  by (simp add: assignment_def bot_names_def dom_map_of_conv_image_fst image_image split_def)

lemma truthy_Some: "truthy bo = Some b \<Longrightarrow> bo = Some b \<and> b \<noteq> []"
  by (auto simp: truthy_def split: option.splits if_splits)

lemma demote_Some:
  "demote lp S m l = Some (s, bo) \<Longrightarrow> \<exists>s0. m l = Some (s0, bo) \<and> (s = 0 \<longleftrightarrow> s0 = 0)"
  by (auto simp: demote_def split: if_splits option.splits)

lemma demote_keeps:
  "m l = Some (s0, bo) \<Longrightarrow> \<exists>s. demote lp S m l = Some (s, bo)"
  by (auto simp: demote_def)

lemma dom_demote [simp]: "dom (demote lp S m) = dom m"
  by (auto simp: demote_def dom_def split: option.splits if_splits)

lemma demote_self [simp]: "demote lp S m lp = m lp"
  by (simp add: demote_def)

lemma demote_talk:
  "demote lp S m l = Some (2, bo) \<Longrightarrow> m l = Some (2, bo)"
  by (auto simp: demote_def split: if_splits option.splits)

lemma demote_all_talk:
  assumes "demote lp S m l = Some (2, bo)" and "l \<in> S" and "l \<noteq> lp"
  shows "truthy bo = None"
  using assms by (auto simp: demote_def split: if_splits option.splits)

subsection \<open>What holds at every exit of an operation, returned or raised\<close>

lemma consistent_sound: "consistent LOOPS w \<Longrightarrow> sound LOOPS w"
  unfolding consistent_def sound_def by blast

lemma sound_bot_nonempty: "sound LOOPS w \<Longrightarrow> assignment w b = Some x \<Longrightarrow> b \<noteq> []"
  using dom_assignment [of w] by (auto simp: sound_def BOTS_def)

lemma sound_off:
  "sound LOOPS w \<Longrightarrow> loop_states w l = Some (s, bo) \<Longrightarrow> (s = 0 \<longleftrightarrow> bo = None)"
  unfolding sound_def by blast

lemma sound_truthy:
  assumes "sound LOOPS w" and "loop_states w l = Some (s, bo)"
  shows "truthy bo = bo"
proof (cases bo)
  case None
  then show ?thesis by (simp add: truthy_def)
next
  case (Some b)
  with assms have "assignment w b = Some (Some l)" by (simp add: sound_def)
  with assms(1) have "b \<noteq> []" by (rule sound_bot_nonempty)
  with Some show ?thesis by (simp add: truthy_def)
qed

lemma sound_distinct: "sound LOOPS w \<Longrightarrow> distinct (bot_names w)"
  by (simp add: sound_def BOTS_def)

lemma sound_demote:
  assumes c: "sound LOOPS w" and n: "bot_names w' = bot_names w"
    and m: "loop_states w' = demote lp S (loop_states w)"
    and a: "assignment w' = assignment w \<or>
            (\<exists>b. assignment w b = Some None \<and> assignment w' = (assignment w)(b \<mapsto> Some lp))"
  shows "sound LOOPS w'"
proof -
  from c have LB: "\<And>l s b. loop_states w l = Some (s, Some b) \<Longrightarrow> assignment w b = Some (Some l)"
    and C: "\<And>l s bo. loop_states w l = Some (s, bo) \<Longrightarrow> (s = 0 \<longleftrightarrow> bo = None)"
    by (auto simp: sound_def)
  have 1: "bot_names w' = map fst BOTS" using c n by (simp add: sound_def)
  have 2: "dom (loop_states w') = name ` set LOOPS" using c m by (simp add: sound_def)
  have 3: "\<forall>l s bo. loop_states w' l = Some (s, bo) \<longrightarrow> (s = 0 \<longleftrightarrow> bo = None)"
  proof (intro allI impI)
    fix l s bo assume "loop_states w' l = Some (s, bo)"
    with m have "demote lp S (loop_states w) l = Some (s, bo)" by simp
    from demote_Some [OF this] C show "s = 0 \<longleftrightarrow> bo = None" by auto
  qed
  have 4: "\<forall>l s b. loop_states w' l = Some (s, Some b) \<longrightarrow> assignment w' b = Some (Some l)"
  proof (intro allI impI)
    fix l s b assume "loop_states w' l = Some (s, Some b)"
    with m have "demote lp S (loop_states w) l = Some (s, Some b)" by simp
    from demote_Some [OF this] obtain s0 where "loop_states w l = Some (s0, Some b)" by blast
    from LB [OF this] have ab: "assignment w b = Some (Some l)" .
    from a show "assignment w' b = Some (Some l)"
    proof
      assume "assignment w' = assignment w"
      with ab show ?thesis by simp
    next
      assume "\<exists>b. assignment w b = Some None \<and> assignment w' = (assignment w)(b \<mapsto> Some lp)"
      then obtain b0 where "assignment w b0 = Some None" "assignment w' = (assignment w)(b0 \<mapsto> Some lp)"
        by blast
      with ab show ?thesis by auto
    qed
  qed
  from 1 2 3 4 show ?thesis unfolding sound_def by blast
qed

lemma sound_released:
  assumes c: "sound LOOPS w" and st: "loop_states w lp = Some (os, bo)"
    and r: "released lp bo w w'" and n: "bot_names w' = bot_names w"
  shows "sound LOOPS w'"
proof -
  from c st have t: "truthy bo = bo" by (rule sound_truthy)
  from r have m: "loop_states w' = (loop_states w)(lp \<mapsto> (0, None))" by (simp add: released_def)
  from r t have a: "assignment w' = (case bo of None \<Rightarrow> assignment w | Some b \<Rightarrow> (assignment w)(b \<mapsto> None))"
    by (auto simp: released_def split: option.splits)
  from c have LB: "\<And>l s b. loop_states w l = Some (s, Some b) \<Longrightarrow> assignment w b = Some (Some l)"
    and C: "\<And>l s bo. loop_states w l = Some (s, bo) \<Longrightarrow> (s = 0 \<longleftrightarrow> bo = None)"
    by (auto simp: sound_def)
  have 1: "bot_names w' = map fst BOTS" using c n by (simp add: sound_def)
  have 2: "dom (loop_states w') = name ` set LOOPS" using c st m by (auto simp: sound_def)
  have 3: "\<forall>l s bo. loop_states w' l = Some (s, bo) \<longrightarrow> (s = 0 \<longleftrightarrow> bo = None)"
    using C m by (auto split: if_splits)
  have 4: "\<forall>l s b. loop_states w' l = Some (s, Some b) \<longrightarrow> assignment w' b = Some (Some l)"
  proof (intro allI impI)
    fix l s b assume h: "loop_states w' l = Some (s, Some b)"
    with m have l: "l \<noteq> lp" and h': "loop_states w l = Some (s, Some b)" by (auto split: if_splits)
    from LB [OF h'] have ab: "assignment w b = Some (Some l)" .
    show "assignment w' b = Some (Some l)"
    proof (cases bo)
      case None
      with a ab show ?thesis by simp
    next
      case (Some b0)
      with st LB have "assignment w b0 = Some (Some lp)" by simp
      with ab l have "b \<noteq> b0" by auto
      with a ab Some show ?thesis by simp
    qed
  qed
  from 1 2 3 4 show ?thesis unfolding sound_def by blast
qed

lemma sound_served:
  assumes c: "sound LOOPS w" and st: "loop_states w lp = Some (os, bo)"
    and r: "served LOOPS lp ns b w w'" and n: "bot_names w' = bot_names w"
    and ns: "ns \<noteq> 0"
    and b: "bo = Some b \<or> bo = None \<and> assignment w b = Some None"
  shows "sound LOOPS w'"
proof -
  define m0 where "m0 = (if ns = 2 then demote lp (name ` set LOOPS) (loop_states w) else loop_states w)"
  from r have m: "loop_states w' = m0(lp \<mapsto> (ns, Some b))"
    and a: "assignment w' = (assignment w)(b \<mapsto> Some lp)"
    by (simp_all add: served_def m0_def)
  from c have LB: "\<And>l s b. loop_states w l = Some (s, Some b) \<Longrightarrow> assignment w b = Some (Some l)"
    and C: "\<And>l s bo. loop_states w l = Some (s, bo) \<Longrightarrow> (s = 0 \<longleftrightarrow> bo = None)"
    by (auto simp: sound_def)
  have m0_Some: "\<And>l s bo. m0 l = Some (s, bo) \<Longrightarrow> \<exists>s0. loop_states w l = Some (s0, bo) \<and> (s = 0 \<longleftrightarrow> s0 = 0)"
    using demote_Some [of lp "name ` set LOOPS" "loop_states w"] by (auto simp: m0_def split: if_splits)
  have dom0: "dom m0 = dom (loop_states w)" by (simp add: m0_def)
  have 1: "bot_names w' = map fst BOTS" using c n by (simp add: sound_def)
  have 2: "dom (loop_states w') = name ` set LOOPS" using c st m dom0 by (auto simp: sound_def)
  have 3: "\<forall>l s bo. loop_states w' l = Some (s, bo) \<longrightarrow> (s = 0 \<longleftrightarrow> bo = None)"
  proof (intro allI impI)
    fix l s bo' assume h: "loop_states w' l = Some (s, bo')"
    show "s = 0 \<longleftrightarrow> bo' = None"
    proof (cases "l = lp")
      case True
      with h m ns show ?thesis by auto
    next
      case False
      with h m have "m0 l = Some (s, bo')" by simp
      from m0_Some [OF this] C show ?thesis by auto
    qed
  qed
  have other: "\<And>l s. l \<noteq> lp \<Longrightarrow> loop_states w l \<noteq> Some (s, Some b)"
  proof
    fix l s assume l: "l \<noteq> lp" and h: "loop_states w l = Some (s, Some b)"
    from LB [OF h] have "assignment w b = Some (Some l)" .
    moreover from b st LB have "assignment w b = Some (Some lp) \<or> assignment w b = Some None" by auto
    ultimately show False using l by auto
  qed
  have 4: "\<forall>l s b'. loop_states w' l = Some (s, Some b') \<longrightarrow> assignment w' b' = Some (Some l)"
  proof (intro allI impI)
    fix l s b' assume h: "loop_states w' l = Some (s, Some b')"
    show "assignment w' b' = Some (Some l)"
    proof (cases "l = lp")
      case True
      with h m a show ?thesis by simp
    next
      case False
      with h m have "m0 l = Some (s, Some b')" by simp
      from m0_Some [OF this] obtain s0 where s0: "loop_states w l = Some (s0, Some b')" by blast
      with other [OF False] have "b' \<noteq> b" by auto
      with LB [OF s0] a show ?thesis by simp
    qed
  qed
  from 1 2 3 4 show ?thesis unfolding sound_def by blast
qed

lemma exclusive_demote:
  assumes "exclusive_talk w" and "loop_states w' = demote lp S (loop_states w)"
  shows "exclusive_talk w'"
  using assms unfolding exclusive_talk_def by (metis demote_talk)

lemma exclusive_released:
  assumes "exclusive_talk w" and "released lp bo w w'"
  shows "exclusive_talk w'"
  using assms unfolding exclusive_talk_def released_def
  by (auto split: if_splits)

lemma exclusive_served:
  assumes c: "sound LOOPS w" and e: "exclusive_talk w" and r: "served LOOPS lp ns b w w'"
  shows "exclusive_talk w'"
proof (cases "ns = 2")
  case True
  with r have m: "loop_states w' = (demote lp (name ` set LOOPS) (loop_states w))(lp \<mapsto> (2, Some b))"
    by (simp add: served_def)
  have "l = lp" if h: "loop_states w' l = Some (2, bo)" for l bo
  proof (rule ccontr)
    assume l: "l \<noteq> lp"
    with h m have d: "demote lp (name ` set LOOPS) (loop_states w) l = Some (2, bo)" by simp
    then have old: "loop_states w l = Some (2, bo)" by (rule demote_talk)
    with c have "l \<in> name ` set LOOPS" by (auto simp: sound_def)
    from demote_all_talk [OF d this l] have "truthy bo = None" .
    moreover from c old have "truthy bo = bo" by (rule sound_truthy)
    moreover from sound_off [OF c old] have "bo \<noteq> None" by simp
    ultimately show False by simp
  qed
  then show ?thesis unfolding exclusive_talk_def by blast
next
  case False
  with r have m: "loop_states w' = (loop_states w)(lp \<mapsto> (ns, Some b))"
    by (simp add: served_def)
  with e False show ?thesis unfolding exclusive_talk_def by (auto split: if_splits)
qed

lemma update_returned_keeps_sound:
  assumes c: "sound LOOPS w" and e: "exclusive_talk w"
    and u: "update_bot_assignment E LOOPS lp rq w = (Inr u, w')"
  shows "sound LOOPS w' \<and> exclusive_talk w'"
proof -
  from update_returned [OF u] obtain cfg os bo where
    st: "loop_states w lp = Some (os, bo)" and n: "bot_names w' = bot_names w"
    and sh: "if effective_state cfg rq = 0 then released lp bo w w'
            else case truthy bo of
                   Some b \<Rightarrow> served LOOPS lp (effective_state cfg rq) b w w'
                 | None \<Rightarrow>
                     (case truthy (find_idle_bot (bot_pool w)) of
                        None \<Rightarrow> w' = w
                      | Some b \<Rightarrow> served LOOPS lp (effective_state cfg rq) b w w')"
    by blast
  from c st have t: "truthy bo = bo" by (rule sound_truthy)
  show ?thesis
  proof (cases "effective_state cfg rq = 0")
    case True
    with sh have "released lp bo w w'" by simp
    with c e st n show ?thesis by (blast intro: sound_released exclusive_released)
  next
    case False
    show ?thesis
    proof (cases bo)
      case (Some b)
      with t sh False have s: "served LOOPS lp (effective_state cfg rq) b w w'" by simp
      from sound_served [OF c st s n False] Some exclusive_served [OF c e s]
      show ?thesis by simp
    next
      case None
      show ?thesis
      proof (cases "truthy (find_idle_bot (bot_pool w))")
        case n2: None
        with None t sh False c e show ?thesis by simp
      next
        case (Some b)
        with None t sh False have s: "served LOOPS lp (effective_state cfg rq) b w w'" by simp
        from Some have "find_idle_bot (bot_pool w) = Some b" by (simp add: truthy_Some)
        then have "assignment w b = Some None"
          using sound_distinct [OF c] by (rule find_idle_bot_assignment)
        with None sound_served [OF c st s n False] exclusive_served [OF c e s]
        show ?thesis by simp
      qed
    qed
  qed
qed

lemma update_raised_frame:
  assumes "update_bot_assignment E LOOPS lp rq w = (Inl e, w')"
  shows "bot_names w' = bot_names w \<and>
         (assignment w' = assignment w \<or>
          (\<exists>b. find_idle_bot (bot_pool w) = Some b \<and>
               assignment w' = assignment (set_assigned b (Some lp) w)))"
proof (cases "loop_configs LOOPS lp")
  case None
  with assms show ?thesis by (simp add: update_bot_assignment_def)
next
  case cfg: (Some cfg)
  show ?thesis
  proof (cases "loop_states w lp")
    case None
    with assms cfg show ?thesis by (simp add: update_bot_assignment_def)
  next
    case (Some v)
    obtain os bo where v: "v = (os, bo)" by (cases v)
    define ns where "ns = effective_state cfg rq"
    show ?thesis
    proof (cases "ns = 0")
      case True
      with assms cfg Some v have "release_loop E lp os bo w = (Inl e, w')"
        by (simp add: update_bot_assignment_def ns_def)
      from release_loop_raised [OF this] show ?thesis by simp
    next
      case False
      show ?thesis
      proof (cases "truthy bo")
        case b: (Some b)
        with assms cfg Some v False have "serve_loop E LOOPS lp os ns b w = (Inl e, w')"
          by (simp add: update_bot_assignment_def ns_def Let_def)
        from serve_loop_raised(1,2) [OF this] show ?thesis by simp
      next
        case None
        show ?thesis
        proof (cases "truthy (find_idle_bot (bot_pool w))")
          case n2: None
          with None assms cfg Some v False show ?thesis
            by (simp add: update_bot_assignment_def ns_def Let_def)
        next
          case b: (Some b)
          with None assms cfg Some v False
          have "serve_loop E LOOPS lp os ns b (set_assigned b (Some lp) w) = (Inl e, w')"
            by (simp add: update_bot_assignment_def ns_def Let_def)
          from serve_loop_raised(1,2) [OF this] b show ?thesis
            by (auto dest: truthy_Some)
        qed
      qed
    qed
  qed
qed

lemma update_raised_keeps_sound:
  assumes c: "sound LOOPS w" and e: "exclusive_talk w"
    and u: "update_bot_assignment E LOOPS lp rq w = (Inl err, w')"
  shows "sound LOOPS w' \<and> exclusive_talk w'"
proof -
  from update_raised [OF u] obtain S where m: "loop_states w' = demote lp S (loop_states w)" ..
  from update_raised_frame [OF u] have n: "bot_names w' = bot_names w"
    and a: "assignment w' = assignment w \<or>
          (\<exists>b. find_idle_bot (bot_pool w) = Some b \<and>
               assignment w' = assignment (set_assigned b (Some lp) w))"
    by blast+
  have a': "assignment w' = assignment w \<or>
            (\<exists>b. assignment w b = Some None \<and> assignment w' = (assignment w)(b \<mapsto> Some lp))"
  proof -
    from a show ?thesis
    proof
      assume "assignment w' = assignment w"
      then show ?thesis ..
    next
      assume "\<exists>b. find_idle_bot (bot_pool w) = Some b \<and>
               assignment w' = assignment (set_assigned b (Some lp) w)"
      then obtain b where f: "find_idle_bot (bot_pool w) = Some b"
        and aw: "assignment w' = assignment (set_assigned b (Some lp) w)" by blast
      from find_idle_bot_assignment [OF f sound_distinct [OF c]]
      have idle: "assignment w b = Some None" .
      then have "b \<in> dom (assignment w)" by (simp add: dom_def)
      with aw have "assignment w' = (assignment w)(b \<mapsto> Some lp)"
        by (simp add: assignment_set_assigned)
      with idle show ?thesis by blast
    qed
  qed
  from sound_demote [OF c n m a'] exclusive_demote [OF e m] show ?thesis by simp
qed

lemma update_any_keeps_sound:
  assumes c: "sound LOOPS w" and e: "exclusive_talk w"
  shows "sound LOOPS (snd (update_bot_assignment E LOOPS lp rq w)) \<and>
         exclusive_talk (snd (update_bot_assignment E LOOPS lp rq w))"
proof (cases "update_bot_assignment E LOOPS lp rq w")
  case (Pair r w')
  show ?thesis
  proof (cases r)
    case (Inl err)
    with Pair update_raised_keeps_sound [OF c e, of E lp rq err w'] show ?thesis by simp
  next
    case (Inr u)
    with Pair update_returned_keeps_sound [OF c e, of E lp rq u w'] show ?thesis by simp
  qed
qed

lemma post_each_frame:
  "loop_states (post_each E rs w) = loop_states w \<and>
   assignment (post_each E rs w) = assignment w \<and>
   bot_names (post_each E rs w) = bot_names w"
  by (induction rs arbitrary: w) (auto simp: post_def)

lemma toggle_delay_frame:
  assumes "toggle_delay E w = (r, w')"
  shows "loop_states w' = loop_states w" "assignment w' = assignment w" "bot_names w' = bot_names w"
  using assms post_each_frame [of E _ "w\<lparr>delay_enabled := \<not> delay_enabled w\<rparr>"]
  by (auto simp: toggle_delay_def Let_def bot_names_def)

lemma run_op_any_keeps_sound:
  assumes c: "sound LOOPS w" and e: "exclusive_talk w"
  shows "sound LOOPS (snd (run_op E LOOPS opn w)) \<and> exclusive_talk (snd (run_op E LOOPS opn w))"
proof (cases opn)
  case (Click l)
  then show ?thesis using update_any_keeps_sound [OF c e] c e
    by (auto simp: on_loop_clicked_def split: option.splits)
next
  case (OffClick l)
  then show ?thesis using update_any_keeps_sound [OF c e] by (simp add: on_loop_off_clicked_def)
next
  case (Update l s)
  then show ?thesis using update_any_keeps_sound [OF c e] by simp
next
  case ToggleDelay
  obtain r w' where t: "toggle_delay E w = (r, w')" by (cases "toggle_delay E w")
  from toggle_delay_frame [OF t] c e t ToggleDelay show ?thesis
    by (simp add: sound_def exclusive_talk_def)
qed

lemma init_consistent: "consistent LOOPS (init LOOPS)"
proof -
  have "loop_states (init LOOPS) l = Some v \<Longrightarrow> v = (0, None)" for l v
    by (auto simp: init_def dest!: map_of_SomeD)
  moreover have "assignment (init LOOPS) b = Some (Some l) \<Longrightarrow> False" for b l
    by (auto simp: assignment_eq init_def BOTS_def split: if_splits)
  moreover have "dom (loop_states (init LOOPS)) = name ` set LOOPS"
    by (simp add: init_def dom_map_of_conv_image_fst image_image)
  moreover have "bot_names (init LOOPS) = map fst BOTS"
    by (simp add: bot_names_def init_def BOTS_def)
  ultimately show ?thesis unfolding consistent_def by fastforce
qed

lemma init_exclusive: "exclusive_talk (init LOOPS)"
proof -
  have "loop_states (init LOOPS) l = Some v \<Longrightarrow> v = (0, None)" for l v
    by (auto simp: init_def dest!: map_of_SomeD)
  then show ?thesis unfolding exclusive_talk_def by fastforce
qed

lemma init_sound: "sound LOOPS (init LOOPS)"
  by (rule consistent_sound [OF init_consistent])

lemma reachable_any_invariant: "reachable_any LOOPS w \<Longrightarrow> sound LOOPS w \<and> exclusive_talk w"
proof (induction rule: reachable_any.induct)
  case start_any
  show ?case by (simp add: init_sound init_exclusive)
next
  case (step_any w E opn)
  then show ?case by (blast dest: run_op_any_keeps_sound)
qed

lemma talk_demotes_others:
  assumes c: "sound LOOPS w" and e: "exclusive_talk w"
    and u: "update_bot_assignment E LOOPS lp rq w = (Inr u, w')"
    and t: "loop_states w' lp = Some (2, b)"
    and l: "l \<noteq> lp" and o: "loop_states w l = Some (2, ob)"
  shows "loop_states w' l = Some (1, ob)"
proof -
  from update_returned [OF u] obtain cfg os bo where
    st: "loop_states w lp = Some (os, bo)"
    and sh: "if effective_state cfg rq = 0 then released lp bo w w'
            else case truthy bo of
                   Some b \<Rightarrow> served LOOPS lp (effective_state cfg rq) b w w'
                 | None \<Rightarrow>
                     (case truthy (find_idle_bot (bot_pool w)) of
                        None \<Rightarrow> w' = w
                      | Some b \<Rightarrow> served LOOPS lp (effective_state cfg rq) b w w')"
    by blast
  have same: "w' \<noteq> w"
  proof
    assume "w' = w"
    with t o e have "l = lp" unfolding exclusive_talk_def by blast
    with l show False by simp
  qed
  from sh t same obtain b' where s: "served LOOPS lp (effective_state cfg rq) b' w w'"
    by (auto simp: released_def split: if_splits option.splits)
  with t have two: "effective_state cfg rq = 2" by (auto simp: served_def split: if_splits)
  with s l have "loop_states w' l = demote lp (name ` set LOOPS) (loop_states w) l"
    by (simp add: served_def)
  moreover from c o have "l \<in> name ` set LOOPS" by (auto simp: sound_def)
  moreover from c o have "truthy ob = ob" by (rule sound_truthy)
  moreover from sound_off [OF c o] have "ob \<noteq> None" by simp
  ultimately show ?thesis using l o by (simp add: demote_def)
qed

subsection \<open>What holds between operations\<close>

lemma consistent_bot_nonempty:
  "consistent LOOPS w \<Longrightarrow> assignment w b = Some x \<Longrightarrow> b \<noteq> []"
  by (blast dest: consistent_sound sound_bot_nonempty)

lemma consistent_truthy:
  "consistent LOOPS w \<Longrightarrow> loop_states w l = Some (s, bo) \<Longrightarrow> truthy bo = bo"
  by (blast dest: consistent_sound intro: sound_truthy)

lemma consistent_distinct: "consistent LOOPS w \<Longrightarrow> distinct (bot_names w)"
  by (blast dest: consistent_sound sound_distinct)

lemma consistent_released:
  assumes c: "consistent LOOPS w" and st: "loop_states w lp = Some (os, bo)"
    and r: "released lp bo w w'" and n: "bot_names w' = bot_names w"
  shows "consistent LOOPS w'"
proof -
  from c have s: "sound LOOPS w" by (rule consistent_sound)
  from sound_released [OF s st r n] have s': "sound LOOPS w'" .
  from c st have t: "truthy bo = bo" by (rule consistent_truthy)
  from r have m: "loop_states w' = (loop_states w)(lp \<mapsto> (0, None))" by (simp add: released_def)
  from r t have a: "assignment w' = (case bo of None \<Rightarrow> assignment w | Some b \<Rightarrow> (assignment w)(b \<mapsto> None))"
    by (auto simp: released_def split: option.splits)
  from c have BL: "\<And>b l. assignment w b = Some (Some l) \<Longrightarrow> \<exists>s. loop_states w l = Some (s, Some b)"
    by (auto simp: consistent_def)
  have 5: "\<forall>b l. assignment w' b = Some (Some l) \<longrightarrow> (\<exists>s. loop_states w' l = Some (s, Some b))"
  proof (intro allI impI)
    fix b l assume h: "assignment w' b = Some (Some l)"
    with a have ab: "assignment w b = Some (Some l)" and nb: "bo \<noteq> Some b"
      by (auto split: option.splits if_splits)
    from BL [OF ab] obtain s where s: "loop_states w l = Some (s, Some b)" ..
    with st nb have "l \<noteq> lp" by auto
    with s m show "\<exists>s. loop_states w' l = Some (s, Some b)" by simp
  qed
  from s' 5 show ?thesis unfolding consistent_def sound_def by blast
qed

lemma consistent_served:
  assumes c: "consistent LOOPS w" and st: "loop_states w lp = Some (os, bo)"
    and r: "served LOOPS lp ns b w w'" and n: "bot_names w' = bot_names w"
    and ns: "ns \<noteq> 0"
    and b: "bo = Some b \<or> bo = None \<and> assignment w b = Some None"
  shows "consistent LOOPS w'"
proof -
  from c have s: "sound LOOPS w" by (rule consistent_sound)
  from sound_served [OF s st r n ns b] have s': "sound LOOPS w'" .
  define m0 where "m0 = (if ns = 2 then demote lp (name ` set LOOPS) (loop_states w) else loop_states w)"
  from r have m: "loop_states w' = m0(lp \<mapsto> (ns, Some b))"
    and a: "assignment w' = (assignment w)(b \<mapsto> Some lp)"
    by (simp_all add: served_def m0_def)
  from c have BL: "\<And>b l. assignment w b = Some (Some l) \<Longrightarrow> \<exists>s. loop_states w l = Some (s, Some b)"
    by (auto simp: consistent_def)
  have m0_keeps: "\<And>l s0 bo. loop_states w l = Some (s0, bo) \<Longrightarrow> \<exists>s. m0 l = Some (s, bo)"
    using demote_keeps [of "loop_states w" _ _ _ lp "name ` set LOOPS"] by (auto simp: m0_def)
  have 5: "\<forall>b' l. assignment w' b' = Some (Some l) \<longrightarrow> (\<exists>s. loop_states w' l = Some (s, Some b'))"
  proof (intro allI impI)
    fix b' l assume h: "assignment w' b' = Some (Some l)"
    show "\<exists>s. loop_states w' l = Some (s, Some b')"
    proof (cases "b' = b")
      case True
      with h a m show ?thesis by simp
    next
      case False
      with h a have "assignment w b' = Some (Some l)" by simp
      from BL [OF this] obtain s0 where s0: "loop_states w l = Some (s0, Some b')" ..
      with st b False have "l \<noteq> lp" by auto
      with m0_keeps [OF s0] m show ?thesis by simp
    qed
  qed
  from s' 5 show ?thesis unfolding consistent_def sound_def by blast
qed

lemma update_keeps:
  assumes c: "consistent LOOPS w" and e: "exclusive_talk w"
    and u: "update_bot_assignment E LOOPS lp rq w = (Inr u, w')"
  shows "consistent LOOPS w' \<and> exclusive_talk w'"
proof -
  from update_returned [OF u] obtain cfg os bo where
    st: "loop_states w lp = Some (os, bo)" and n: "bot_names w' = bot_names w"
    and sh: "if effective_state cfg rq = 0 then released lp bo w w'
            else case truthy bo of
                   Some b \<Rightarrow> served LOOPS lp (effective_state cfg rq) b w w'
                 | None \<Rightarrow>
                     (case truthy (find_idle_bot (bot_pool w)) of
                        None \<Rightarrow> w' = w
                      | Some b \<Rightarrow> served LOOPS lp (effective_state cfg rq) b w w')"
    by blast
  from c st have t: "truthy bo = bo" by (rule consistent_truthy)
  show ?thesis
  proof (cases "effective_state cfg rq = 0")
    case True
    with sh have "released lp bo w w'" by simp
    with c e st n show ?thesis by (blast intro: consistent_released exclusive_released)
  next
    case False
    show ?thesis
    proof (cases bo)
      case (Some b)
      with t sh False have s: "served LOOPS lp (effective_state cfg rq) b w w'" by simp
      from consistent_served [OF c st s n False] Some exclusive_served [OF consistent_sound [OF c] e s]
      show ?thesis by simp
    next
      case None
      show ?thesis
      proof (cases "truthy (find_idle_bot (bot_pool w))")
        case n2: None
        with None t sh False c e show ?thesis by simp
      next
        case (Some b)
        with None t sh False have s: "served LOOPS lp (effective_state cfg rq) b w w'" by simp
        from Some have "find_idle_bot (bot_pool w) = Some b" by (simp add: truthy_Some)
        then have "assignment w b = Some None"
          using consistent_distinct [OF c] by (rule find_idle_bot_assignment)
        with None consistent_served [OF c st s n False] exclusive_served [OF consistent_sound [OF c] e s]
        show ?thesis by simp
      qed
    qed
  qed
qed

lemma run_op_keeps:
  assumes c: "consistent LOOPS w" and e: "exclusive_talk w"
    and r: "run_op E LOOPS opn w = (Inr u, w')"
  shows "consistent LOOPS w' \<and> exclusive_talk w'"
proof (cases opn)
  case (Click l)
  with r have "w' = w \<or> (\<exists>rq. update_bot_assignment E LOOPS l rq w = (Inr u, w'))"
    by (auto simp: on_loop_clicked_def split: option.splits if_splits)
  with c e show ?thesis by (auto dest: update_keeps)
next
  case (OffClick l)
  with r c e show ?thesis by (auto simp: on_loop_off_clicked_def dest: update_keeps)
next
  case (Update l s)
  with r c e show ?thesis by (auto dest: update_keeps)
next
  case ToggleDelay
  with r have t: "toggle_delay E w = (Inr u, w')" by simp
  from toggle_delay_frame [OF t] c e show ?thesis
    by (simp add: consistent_def exclusive_talk_def)
qed

lemma reachable_invariant: "reachable LOOPS w \<Longrightarrow> consistent LOOPS w \<and> exclusive_talk w"
proof (induction rule: reachable.induct)
  case start
  show ?case by (simp add: init_consistent init_exclusive)
next
  case (step w E opn w')
  then show ?case by (blast dest: run_op_keeps)
qed

lemma reachable_reachable_any: "reachable LOOPS w \<Longrightarrow> reachable_any LOOPS w"
proof (induction rule: reachable.induct)
  case start
  show ?case by (rule reachable_any.start_any)
next
  case (step w E opn w')
  from reachable_any.step_any [OF step.IH, of E opn] step.hyps(2) show ?case by simp
qed

lemma assignment_Some:
  "assignment w b = Some x \<longleftrightarrow> (\<exists>d. map_of (bot_pool w) b = Some d \<and> assigned d = x)"
  by (auto simp: assignment_eq)


subsection \<open>With every request delivered, an update returns\<close>

lemma post_ok_Inr: "\<forall>h r. post_ok E h r \<Longrightarrow> post E r w = (Inr (), w\<lparr>sent := sent w @ [Post r]\<rparr>)"
  by (simp add: post_def)

lemma dom_assignment_map_of: "b \<in> dom (assignment w) \<longleftrightarrow> (\<exists>d. map_of (bot_pool w) b = Some d)"
  by (auto simp: assignment_eq dom_def)

lemma demote_others_progress:
  assumes ok: "\<forall>h r. post_ok E h r"
  shows "ready ls w \<Longrightarrow> \<exists>w'. demote_others E lp ls w = (Inr (), w')"
proof (induction ls arbitrary: w)
  case Nil
  show ?case by simp
next
  case (Cons a ls)
  from Cons.prems have rest: "ready ls w" by (simp add: ready_def)
  show ?case
  proof (cases "name a = lp")
    case True
    with Cons.IH [OF rest] show ?thesis by simp
  next
    case False
    from Cons.prems obtain s bo where m: "loop_states w (name a) = Some (s, bo)"
      by (auto simp: ready_def)
    show ?thesis
    proof (cases "if s = 2 then truthy bo else None")
      case None
      with False m Cons.IH [OF rest] show ?thesis by simp
    next
      case (Some b)
      then have s: "s = 2" and bo: "bo = Some b" by (auto dest: truthy_Some split: if_splits)
      with m Cons.prems obtain d where d: "map_of (bot_pool w) b = Some d"
        unfolding ready_def dom_assignment_map_of by blast
      define r where "r = Request (port d) (if delay_enabled w then ''/mute_after_delay'' else ''/mute'') NoJson"
      define w1 where "w1 = w\<lparr>sent := sent w @ [Post r]\<rparr>"
      define w2 where "w2 = tick (set_last_used b (now E w1) (set_loop_state (name a) (1, bo) w1))"
      have "ready ls w2"
        using Cons.prems bo m unfolding ready_def w2_def w1_def
        by (auto simp: dom_assignment split: if_splits)
      from Cons.IH [OF this] obtain w' where "demote_others E lp ls w2 = (Inr (), w')" ..
      with False m Some d post_ok_Inr [OF ok, of r w] show ?thesis
        by (simp add: then_do_def r_def w1_def w2_def)
    qed
  qed
qed

lemma issue_commands_progress:
  assumes ok: "\<forall>h r. post_ok E h r" and "ready LOOPS w"
  shows "\<exists>w'. issue_commands E LOOPS lp os ns p w = (Inr (), w')"
proof -
  from demote_others_progress [OF ok assms(2)] obtain w1 where "demote_others E lp LOOPS w = (Inr (), w1)" ..
  then show ?thesis
    by (simp add: issue_commands_def then_do_def post_ok_Inr [OF ok])
qed

lemma serve_loop_progress:
  assumes ok: "\<forall>h r. post_ok E h r" and "ready LOOPS w" and "b \<in> dom (assignment w)"
  shows "\<exists>w'. serve_loop E LOOPS lp os ns b w = (Inr (), w')"
proof -
  from assms(3) obtain d where d: "map_of (bot_pool w) b = Some d"
    by (auto simp: dom_assignment_map_of)
  from issue_commands_progress [OF ok assms(2)]
  obtain w1 where "issue_commands E LOOPS lp os ns (port d) w = (Inr (), w1)" ..
  with d show ?thesis by (simp add: serve_loop_def then_do_def)
qed

lemma release_loop_progress:
  assumes ok: "\<forall>h r. post_ok E h r" and "\<forall>b. bo = Some b \<longrightarrow> b \<in> dom (assignment w)"
  shows "\<exists>w'. release_loop E lp os bo w = (Inr (), w')"
proof (cases "truthy bo")
  case None
  then show ?thesis by (simp add: release_loop_def)
next
  case (Some b)
  with assms(2) obtain d where d: "map_of (bot_pool w) b = Some d"
    by (auto simp: dom_assignment_map_of dest: truthy_Some)
  with Some show ?thesis
    by (simp add: release_loop_def then_do_def post_ok_Inr [OF ok])
qed

lemma consistent_ready: "consistent LOOPS w \<Longrightarrow> ready LOOPS w"
  unfolding consistent_def ready_def by (auto simp: dom_def)

lemma ready_set_assigned: "ready LOOPS w \<Longrightarrow> ready LOOPS (set_assigned b v w)"
  unfolding ready_def by (simp add: dom_assignment)

lemma dom_loop_configs: "dom (loop_configs LOOPS) = name ` set LOOPS"
  by (simp add: loop_configs_def dom_map_of_conv_image_fst image_image)

lemma update_progress:
  assumes c: "consistent LOOPS w" and ok: "\<forall>h r. post_ok E h r" and lp: "lp \<in> name ` set LOOPS"
  shows "\<exists>w'. update_bot_assignment E LOOPS lp rq w = (Inr (), w')"
proof -
  from lp obtain cfg where cfg: "loop_configs LOOPS lp = Some cfg"
    using dom_loop_configs [of LOOPS] by blast
  from lp c obtain os bo where st: "loop_states w lp = Some (os, bo)"
    unfolding consistent_def by (metis domD surj_pair)
  from c st have have_bot: "\<forall>b. bo = Some b \<longrightarrow> b \<in> dom (assignment w)"
    unfolding consistent_def by (auto simp: dom_def)
  from c have rd: "ready LOOPS w" by (rule consistent_ready)
  define ns where "ns = effective_state cfg rq"
  show ?thesis
  proof (cases "ns = 0")
    case True
    with release_loop_progress [OF ok have_bot, of lp os] cfg st show ?thesis
      by (simp add: update_bot_assignment_def ns_def)
  next
    case False
    show ?thesis
    proof (cases "truthy bo")
      case (Some b)
      with have_bot have "b \<in> dom (assignment w)" by (auto dest: truthy_Some)
      from serve_loop_progress [OF ok rd this, of lp os ns] Some False cfg st show ?thesis
        by (simp add: update_bot_assignment_def ns_def Let_def)
    next
      case None
      show ?thesis
      proof (cases "truthy (find_idle_bot (bot_pool w))")
        case n2: None
        with None False cfg st show ?thesis
          by (simp add: update_bot_assignment_def ns_def Let_def)
      next
        case (Some b)
        then have "find_idle_bot (bot_pool w) = Some b" by (simp add: truthy_Some)
        from find_idle_bot_assignment [OF this consistent_distinct [OF c]]
        have "b \<in> dom (assignment (set_assigned b (Some lp) w))"
          by (simp add: dom_assignment) (simp add: dom_assignment [symmetric] dom_def)
        from serve_loop_progress [OF ok ready_set_assigned [OF rd] this, of lp os ns]
          Some None False cfg st show ?thesis
          by (simp add: update_bot_assignment_def ns_def Let_def)
      qed
    qed
  qed
qed

subsection \<open>Small facts for the claims\<close>

lemma set_loop_state_same: "loop_states w l = Some v \<Longrightarrow> set_loop_state l v w = w"
  by (simp add: set_loop_state_def map_upd_triv)

lemma served_state: "served LOOPS lp ns b w w' \<Longrightarrow> loop_states w' lp = Some (ns, Some b)"
  by (simp add: served_def)

lemma release_loop_delivered:
  assumes ok: "\<forall>h r. post_ok E h r" and d: "map_of (bot_pool w) b = Some d" and b: "b \<noteq> []"
  shows "\<exists>w'. release_loop E lp os (Some b) w = (Inr (), w') \<and>
           loop_states w' lp = Some (0, None) \<and>
           map_of (bot_pool w') b = Some (d\<lparr>assigned := None, last_used := time_time E (ticks w)\<rparr>) \<and>
           (\<forall>c \<in> set (sent w'). c \<in> set (sent w) \<or> (\<exists>path. c = Post (Request (port d) path NoJson)))"
  using d b
  by (auto simp: release_loop_def truthy_def then_do_def post_ok_Inr [OF ok] set_loop_state_def
      tick_def set_last_used_def set_assigned_def now_def map_of_map_entry)

section \<open>The claims about the controller\<close>

subsection \<open>Concrete runs, evaluated\<close>

lemmas eval_defs = clicks_def delivered_def refused_def init_def BOTS_def on_loop_clicked_def
  on_loop_off_clicked_def update_bot_assignment_def loop_configs_def effective_state_def
  serve_loop_def issue_commands_def release_loop_def then_do_def post_def start_timer_def
  now_def tick_def truthy_def set_assigned_def set_last_used_def set_loop_state_def
  find_idle_bot_def Let_def

lemma delivered_ok: "\<forall>h r. post_ok delivered h r"
  by (simp add: delivered_def)

lemma run_two_1:
  "run_op delivered two_loops (Click ''A'') (init two_loops) =
     (Inr (), clicks delivered two_loops [''A''])"
  by (simp add: eval_defs two_loops_def)

lemma run_two_2:
  "run_op delivered two_loops (Click ''A'') (clicks delivered two_loops [''A'']) =
     (Inr (), clicks delivered two_loops [''A'', ''A''])"
  by (simp add: eval_defs two_loops_def)

lemma run_two_3:
  "run_op delivered two_loops (Click ''B'') (clicks delivered two_loops [''A'', ''A'']) =
     (Inr (), clicks delivered two_loops [''A'', ''A'', ''B''])"
  by (simp add: eval_defs two_loops_def)


lemma reachable_two_3: "reachable two_loops (clicks delivered two_loops [''A'', ''A'', ''B''])"
  by (rule reachable.step [OF reachable.step [OF reachable.step [OF reachable.start
        run_two_1] run_two_2] run_two_3])


lemma talk_two_3:
  "loop_states (clicks delivered two_loops [''A'', ''A'', ''B'']) ''A'' = Some (2, Some ''BOT1'')"
  by (simp add: eval_defs two_loops_def)

lemma update_two_4:
  "update_bot_assignment delivered two_loops ''B'' 2
     (clicks delivered two_loops [''A'', ''A'', ''B'']) =
     (Inr (), clicks delivered two_loops [''A'', ''A'', ''B'', ''B''])"
  by (simp add: eval_defs two_loops_def)

lemma talk_two_4:
  "loop_states (clicks delivered two_loops [''A'', ''A'', ''B'', ''B'']) ''B'' =
     Some (2, Some ''BOT2'')"
  by (simp add: eval_defs two_loops_def)

lemma run_listen_only_1:
  "run_op delivered listen_only (Click ''C'') (init listen_only) =
     (Inr (), clicks delivered listen_only [''C''])"
  by (simp add: eval_defs listen_only_def)

lemma reachable_listen_only_1: "reachable listen_only (clicks delivered listen_only [''C''])"
  by (rule reachable.step [OF reachable.start run_listen_only_1])

lemma listen_only_cfg:
  "loop_configs listen_only ''C'' = Some \<lparr>name = ''C'', can_listen = True, can_talk = False\<rparr>"
  by (simp add: loop_configs_def listen_only_def)

subsection \<open>C1: at most one loop talks\<close>

text \<open>
  Claim C1. From the initial state, in which every loop is OFF, run any sequence of
  \<^verbatim>\<open>on_loop_clicked\<close>, \<^verbatim>\<open>on_loop_off_clicked\<close>, \<^verbatim>\<open>_update_bot_assignment\<close> (with any
  requested state) and \<^verbatim>\<open>toggle_delay\<close>, in any environment, each operation returning
  or raising in the middle and the run going on from the state it leaves. In every state
  \<open>w\<close> so reached at most one loop is in TALK. When \<^verbatim>\<open>_update_bot_assignment\<close> then
  returns with its loop in TALK, every other loop that was in TALK is in LISTEN with its
  bot; and when it raises, the state of its own loop is as before, for that state is
  written last, after the scan.
\<close>

theorem exclusive_talk_invariant:
  assumes "reachable_any LOOPS w"
  shows "exclusive_talk w \<and>
    (\<forall>E lp rq w' b. update_bot_assignment E LOOPS lp rq w = (Inr (), w') \<longrightarrow>
        loop_states w' lp = Some (2, b) \<longrightarrow>
        (\<forall>l ob. l \<noteq> lp \<longrightarrow> loop_states w l = Some (2, ob) \<longrightarrow> loop_states w' l = Some (1, ob))) \<and>
    (\<forall>E lp rq e w'. update_bot_assignment E LOOPS lp rq w = (Inl e, w') \<longrightarrow>
        loop_states w' lp = loop_states w lp)"
proof -
  from assms have c: "sound LOOPS w" and e: "exclusive_talk w"
    by (simp_all add: reachable_any_invariant)
  have "loop_states w' lp = loop_states w lp"
    if "update_bot_assignment E LOOPS lp rq w = (Inl err, w')" for E lp rq err w'
    using update_raised [OF that] by auto
  with e talk_demotes_others [OF c e]
  show ?thesis by blast
qed

theorem exclusive_talk_invariant_witness:
  "reachable_any two_loops (clicks delivered two_loops [''A'', ''A'', ''B'']) \<and>
   exclusive_talk (clicks delivered two_loops [''A'', ''A'', ''B'']) \<and>
   loop_states (clicks delivered two_loops [''A'', ''A'', ''B'']) ''A'' = Some (2, Some ''BOT1'') \<and>
   update_bot_assignment delivered two_loops ''B'' 2
     (clicks delivered two_loops [''A'', ''A'', ''B'']) =
     (Inr (), clicks delivered two_loops [''A'', ''A'', ''B'', ''B'']) \<and>
   loop_states (clicks delivered two_loops [''A'', ''A'', ''B'', ''B'']) ''B'' =
     Some (2, Some ''BOT2'') \<and>
   loop_states (clicks delivered two_loops [''A'', ''A'', ''B'', ''B'']) ''A'' =
     Some (1, Some ''BOT1'') \<and>
   fst (run_op refused two_loops (Click ''A'') (init two_loops)) = Inl RequestException \<and>
   reachable_any two_loops (snd (run_op refused two_loops (Click ''A'') (init two_loops))) \<and>
   exclusive_talk (snd (run_op refused two_loops (Click ''A'') (init two_loops)))"
proof -
  let ?w3 = "clicks delivered two_loops [''A'', ''A'', ''B'']"
  let ?w4 = "clicks delivered two_loops [''A'', ''A'', ''B'', ''B'']"
  let ?wr = "snd (run_op refused two_loops (Click ''A'') (init two_loops))"
  have r3: "reachable_any two_loops ?w3" by (rule reachable_reachable_any [OF reachable_two_3])
  note inv = exclusive_talk_invariant [OF r3]
  from inv have e: "exclusive_talk ?w3" by blast
  from inv have d: "\<forall>E lp rq w' b. update_bot_assignment E two_loops lp rq ?w3 = (Inr (), w') \<longrightarrow>
        loop_states w' lp = Some (2, b) \<longrightarrow>
        (\<forall>l ob. l \<noteq> lp \<longrightarrow> loop_states ?w3 l = Some (2, ob) \<longrightarrow> loop_states w' l = Some (1, ob))"
    by blast
  have ne: "''A'' \<noteq> ''B''" by simp
  have a4: "loop_states ?w4 ''A'' = Some (1, Some ''BOT1'')"
    by (rule d [rule_format, OF update_two_4 talk_two_4 ne talk_two_3])
  have raised: "fst (run_op refused two_loops (Click ''A'') (init two_loops)) = Inl RequestException"
    by (simp add: eval_defs two_loops_def)
  have rr: "reachable_any two_loops ?wr"
    by (rule reachable_any.step_any [OF reachable_any.start_any])
  from exclusive_talk_invariant [OF rr] have er: "exclusive_talk ?wr" by blast
  from r3 e talk_two_3 update_two_4 talk_two_4 a4 raised rr er show ?thesis by simp
qed

subsection \<open>C2: the assignment is a partial bijection\<close>



text \<open>
  What the state looks like where a request raises: with no request delivered, the first
  click on A marks BOT1 as assigned to A and raises before the state of A is written.
\<close>

lemma refused_click_leaves_bot_marked:
  "fst (run_op refused two_loops (Click ''A'') (init two_loops)) = Inl RequestException \<and>
   loop_states (snd (run_op refused two_loops (Click ''A'') (init two_loops))) ''A'' =
     Some (0, None) \<and>
   map (\<lambda>(n, d). (n, assigned d))
     (bot_pool (snd (run_op refused two_loops (Click ''A'') (init two_loops)))) =
     [(''BOT1'', Some ''A''), (''BOT2'', None), (''BOT3'', None)]"
  by (simp add: eval_defs two_loops_def)

subsection \<open>C3: clicking a listen-only loop twice\<close>

text \<open>
  Claim C3 says that the second click on a listen-only loop requests TALK and leaves the
  loop OFF. In the source the second click requests LISTEN: \<^verbatim>\<open>on_loop_clicked\<close> asks for
  TALK only when the loop can talk. With loop C listen-only and every request delivered,
  the first click takes C from OFF to LISTEN on BOT1, and the second click returns with C
  still in LISTEN on BOT1, not OFF.
\<close>

theorem listen_only_second_click_counterexample:
  "loop_configs listen_only ''C'' = Some \<lparr>name = ''C'', can_listen = True, can_talk = False\<rparr> \<and>
   loop_states (init listen_only) ''C'' = Some (0, None) \<and>
   on_loop_clicked delivered listen_only ''C'' (init listen_only) =
     (Inr (), clicks delivered listen_only [''C'']) \<and>
   loop_states (clicks delivered listen_only [''C'']) ''C'' = Some (1, Some ''BOT1'') \<and>
   on_loop_clicked delivered listen_only ''C'' (clicks delivered listen_only [''C'']) =
     (Inr (), clicks delivered listen_only [''C'', ''C'']) \<and>
   loop_states (clicks delivered listen_only [''C'', ''C'']) ''C'' = Some (1, Some ''BOT1'') \<and>
   loop_states (clicks delivered listen_only [''C'', ''C'']) ''C'' \<noteq> Some (0, None)"
  by (simp add: eval_defs listen_only_def)

text \<open>
  Claim C3, amended. Take a loop that can listen and cannot talk, OFF in a reachable
  state with an idle bot in the pool, and let every request be delivered. The first click
  returns with the loop in LISTEN on some bot, and the second click returns with the
  loop still in LISTEN on the same bot.
\<close>

theorem listen_only_click_twice:
  assumes r: "reachable LOOPS w"
    and cfg: "loop_configs LOOPS lp = Some cfg" and cl: "can_listen cfg" and ct: "\<not> can_talk cfg"
    and off: "loop_states w lp = Some (0, None)"
    and idle: "\<exists>(n, d) \<in> set (bot_pool w). assigned d = None"
    and ok: "\<forall>h r. post_ok E h r" and ok': "\<forall>h r. post_ok E' h r"
  shows "\<exists>b w1 w2. on_loop_clicked E LOOPS lp w = (Inr (), w1) \<and>
           loop_states w1 lp = Some (1, Some b) \<and>
           on_loop_clicked E' LOOPS lp w1 = (Inr (), w2) \<and>
           loop_states w2 lp = Some (1, Some b)"
proof -
  from r have c: "consistent LOOPS w" by (simp add: reachable_invariant)
  from cfg have mem: "lp \<in> name ` set LOOPS" using dom_loop_configs [of LOOPS] by blast
  have eff: "effective_state cfg 1 = 1" by (simp add: effective_state_def)
  from idle obtain b where f: "find_idle_bot (bot_pool w) = Some b"
    using find_idle_bot_None [of "bot_pool w"] by auto
  from find_idle_bot_assignment [OF f consistent_distinct [OF c]]
  have "b \<noteq> []" by (rule consistent_bot_nonempty [OF c])
  with f have tf: "truthy (find_idle_bot (bot_pool w)) = Some b" by (simp add: truthy_def)
  from update_progress [OF c ok mem] obtain w1 where
    u1: "update_bot_assignment E LOOPS lp 1 w = (Inr (), w1)" by blast
  from update_returned [OF u1] cfg off eff tf have "served LOOPS lp 1 b w w1"
    by (auto simp: truthy_def)
  then have s1: "loop_states w1 lp = Some (1, Some b)" by (rule served_state)
  from cfg off cl u1 have c1: "on_loop_clicked E LOOPS lp w = (Inr (), w1)"
    by (simp add: on_loop_clicked_def)
  then have "run_op E LOOPS (Click lp) w = (Inr (), w1)" by simp
  with r have r1: "reachable LOOPS w1" by (rule reachable.step)
  then have c1': "consistent LOOPS w1" by (simp add: reachable_invariant)
  from update_progress [OF c1' ok' mem] obtain w2 where
    u2: "update_bot_assignment E' LOOPS lp 1 w1 = (Inr (), w2)" by blast
  from consistent_truthy [OF c1' s1] have "truthy (Some b) = Some b" .
  with update_returned [OF u2] cfg s1 eff have "served LOOPS lp 1 b w1 w2" by auto
  then have s2: "loop_states w2 lp = Some (1, Some b)" by (rule served_state)
  from cfg s1 cl ct u2 have c2: "on_loop_clicked E' LOOPS lp w1 = (Inr (), w2)"
    by (simp add: on_loop_clicked_def)
  from c1 s1 c2 s2 show ?thesis by blast
qed

theorem listen_only_click_twice_witness:
  "reachable listen_only (init listen_only) \<and>
   loop_states (init listen_only) ''C'' = Some (0, None) \<and>
   (\<exists>b w1 w2. on_loop_clicked delivered listen_only ''C'' (init listen_only) = (Inr (), w1) \<and>
      loop_states w1 ''C'' = Some (1, Some b) \<and>
      on_loop_clicked delivered listen_only ''C'' w1 = (Inr (), w2) \<and>
      loop_states w2 ''C'' = Some (1, Some b))"
proof -
  have off: "loop_states (init listen_only) ''C'' = Some (0, None)"
    by (simp add: init_def listen_only_def)
  have idle: "\<exists>(n, d) \<in> set (bot_pool (init listen_only)). assigned d = None"
    by (simp add: init_def BOTS_def)
  from listen_only_click_twice [OF reachable.start listen_only_cfg _ _ off idle
      delivered_ok delivered_ok] reachable.start [of listen_only] off
  show ?thesis by simp
qed

subsection \<open>C4: a talk request on a loop that cannot talk\<close>

text \<open>
  Claim C4 says that for every loop that cannot talk a request for TALK sets the loop to
  OFF. The source clamps the request only when the loop can listen as well: for loop D,
  which can neither listen nor talk, \<^verbatim>\<open>_update_bot_assignment\<close> with state 2 returns with
  D in state 2 on BOT1, not OFF.
\<close>

theorem clamp_every_loop_counterexample:
  "loop_configs no_listen ''D'' = Some \<lparr>name = ''D'', can_listen = False, can_talk = False\<rparr> \<and>
   fst (update_bot_assignment delivered no_listen ''D'' 2 (init no_listen)) = Inr () \<and>
   loop_states (snd (update_bot_assignment delivered no_listen ''D'' 2 (init no_listen))) ''D'' =
     Some (2, Some ''BOT1'') \<and>
   loop_states (snd (update_bot_assignment delivered no_listen ''D'' 2 (init no_listen))) ''D'' \<noteq>
     Some (0, None)"
  by (simp add: eval_defs no_listen_def)

text \<open>
  Claim C4, amended. For every loop that can listen and cannot talk, in every reachable
  state, a request for TALK (any requested state above 1) with every request delivered
  returns with the loop OFF and no bot recorded, never LISTEN; the bot the loop had, if
  any, is idle again and its \<^verbatim>\<open>last_used\<close> is the time of the release.
\<close>

theorem clamp_to_off:
  assumes r: "reachable LOOPS w"
    and cfg: "loop_configs LOOPS lp = Some cfg" and "can_listen cfg" and "\<not> can_talk cfg"
    and rq: "1 < rq"
    and ok: "\<forall>h r. post_ok E h r"
  shows "\<exists>w'. update_bot_assignment E LOOPS lp rq w = (Inr (), w') \<and>
           loop_states w' lp = Some (0, None) \<and>
           (\<forall>s b. loop_states w lp = Some (s, Some b) \<longrightarrow>
              (\<exists>d. map_of (bot_pool w') b = Some d \<and> assigned d = None \<and>
                   last_used d = time_time E (ticks w)))"
proof -
  from r have c: "consistent LOOPS w" by (simp add: reachable_invariant)
  from assms have eff: "effective_state cfg rq = 0" by (simp add: effective_state_def)
  from cfg have "lp \<in> name ` set LOOPS" using dom_loop_configs [of LOOPS] by blast
  with c obtain os bo where st: "loop_states w lp = Some (os, bo)"
    unfolding consistent_def by (metis domD surj_pair)
  show ?thesis
  proof (cases bo)
    case None
    with cfg st eff show ?thesis
      by (simp add: update_bot_assignment_def release_loop_def truthy_def)
  next
    case (Some b)
    with c st have a: "assignment w b = Some (Some lp)" unfolding consistent_def by blast
    then obtain d where d: "map_of (bot_pool w) b = Some d" by (auto simp: assignment_Some)
    from consistent_bot_nonempty [OF c a] have "b \<noteq> []" .
    from release_loop_delivered [OF ok d this, of lp os] cfg st eff Some show ?thesis
      by (auto simp: update_bot_assignment_def)
  qed
qed

theorem clamp_to_off_witness:
  "reachable listen_only (clicks delivered listen_only [''C'']) \<and>
   loop_states (clicks delivered listen_only [''C'']) ''C'' = Some (1, Some ''BOT1'') \<and>
   (\<exists>w'. update_bot_assignment delivered listen_only ''C'' 2
            (clicks delivered listen_only [''C'']) = (Inr (), w') \<and>
      loop_states w' ''C'' = Some (0, None) \<and>
      (\<exists>d. map_of (bot_pool w') ''BOT1'' = Some d \<and> assigned d = None))"
proof -
  let ?w = "clicks delivered listen_only [''C'']"
  have st: "loop_states ?w ''C'' = Some (1, Some ''BOT1'')"
    by (simp add: eval_defs listen_only_def)
  have two: "(1::int) < 2" by simp
  from clamp_to_off [OF reachable_listen_only_1 listen_only_cfg _ _ two delivered_ok]
  obtain w' where "update_bot_assignment delivered listen_only ''C'' 2 ?w = (Inr (), w')"
    and "loop_states w' ''C'' = Some (0, None)"
    and "\<forall>s b. loop_states ?w ''C'' = Some (s, Some b) \<longrightarrow>
              (\<exists>d. map_of (bot_pool w') b = Some d \<and> assigned d = None \<and>
                   last_used d = time_time delivered (ticks ?w))"
    by auto
  with st reachable_listen_only_1 show ?thesis by blast
qed

subsection \<open>C5: the least recently used idle bot\<close>

text \<open>
  Claim C5. Whenever \<^verbatim>\<open>_update_bot_assignment\<close> returns having taken a loop that had no
  bot to a state with bot \<open>b\<close>, that bot is the one \<^verbatim>\<open>_find_idle_bot\<close> gives for the pool
  as it was: an entry of the pool with \<^verbatim>\<open>assigned\<close> None whose \<^verbatim>\<open>last_used\<close> is least
  among the idle entries. So of two idle bots with last_used \<open>t1 < t2\<close> the one with \<open>t2\<close>
  is never chosen, and where they are the only idle bots the one with \<open>t1\<close> is chosen.
\<close>

theorem lru_bot_selection:
  assumes u: "update_bot_assignment E LOOPS lp rq w = (Inr (), w')"
    and st: "loop_states w lp = Some (os, None)"
    and st': "loop_states w' lp = Some (s, Some b)"
  shows "find_idle_bot (bot_pool w) = Some b \<and>
         (\<exists>d. (b, d) \<in> set (bot_pool w) \<and> assigned d = None \<and>
            (\<forall>(n', d') \<in> set (bot_pool w). assigned d' = None \<longrightarrow> last_used d \<le> last_used d') \<and>
            (\<forall>(n1, d1) \<in> set (bot_pool w). \<forall>(n2, d2) \<in> set (bot_pool w).
               assigned d1 = None \<longrightarrow> assigned d2 = None \<longrightarrow> last_used d1 < last_used d2 \<longrightarrow>
               d \<noteq> d2 \<and>
               ((\<forall>(n3, d3) \<in> set (bot_pool w). assigned d3 = None \<longrightarrow> d3 = d1 \<or> d3 = d2) \<longrightarrow> d = d1)))"
proof -
  from update_returned [OF u] obtain cfg os' bo' where
    st0: "loop_states w lp = Some (os', bo')"
    and sh: "if effective_state cfg rq = 0 then released lp bo' w w'
            else case truthy bo' of
                   Some b \<Rightarrow> served LOOPS lp (effective_state cfg rq) b w w'
                 | None \<Rightarrow>
                     (case truthy (find_idle_bot (bot_pool w)) of
                        None \<Rightarrow> w' = w
                      | Some b \<Rightarrow> served LOOPS lp (effective_state cfg rq) b w w')"
    by blast
  from st st0 have bo': "truthy bo' = None" by (simp add: truthy_def)
  have nz: "effective_state cfg rq \<noteq> 0"
  proof
    assume "effective_state cfg rq = 0"
    with sh have "loop_states w' lp = Some (0, None)" by (simp add: released_def)
    with st' show False by simp
  qed
  obtain b' where tb: "truthy (find_idle_bot (bot_pool w)) = Some b'"
    and s: "served LOOPS lp (effective_state cfg rq) b' w w'"
  proof (cases "truthy (find_idle_bot (bot_pool w))")
    case None
    with sh nz bo' have "w' = w" by simp
    with st st' show ?thesis by simp
  next
    case (Some b')
    with sh nz bo' that show ?thesis by simp
  qed
  from served_state [OF s] st' have "b' = b" by simp
  with tb have f: "find_idle_bot (bot_pool w) = Some b" by (simp add: truthy_Some)
  from find_idle_bot_Some [OF f] obtain d where d: "(b, d) \<in> set (bot_pool w)" "assigned d = None"
    and least: "\<forall>(n', d') \<in> set (bot_pool w). assigned d' = None \<longrightarrow> last_used d \<le> last_used d'"
    by blast
  have "d \<noteq> d2 \<and> ((\<forall>(n3, d3) \<in> set (bot_pool w). assigned d3 = None \<longrightarrow> d3 = d1 \<or> d3 = d2) \<longrightarrow> d = d1)"
    if "(n1, d1) \<in> set (bot_pool w)" "(n2, d2) \<in> set (bot_pool w)" "assigned d1 = None"
      "assigned d2 = None" "last_used d1 < last_used d2" for n1 d1 n2 d2
  proof -
    from least that(1,3) have "last_used d \<le> last_used d1" by auto
    with that(5) have ne: "d \<noteq> d2" by auto
    with d show ?thesis by auto
  qed
  with f d least show ?thesis by blast
qed

theorem lru_bot_selection_witness:
  "map (\<lambda>(n, d). (n, assigned d, last_used d)) (bot_pool after_release) =
     [(''BOT1'', None, 101), (''BOT2'', None, 0), (''BOT3'', None, 0)] \<and>
   loop_states after_release ''B'' = Some (0, None) \<and>
   update_bot_assignment delivered two_loops ''B'' 1 after_release =
     (Inr (), snd (update_bot_assignment delivered two_loops ''B'' 1 after_release)) \<and>
   loop_states (snd (update_bot_assignment delivered two_loops ''B'' 1 after_release)) ''B'' =
     Some (1, Some ''BOT2'') \<and>
   find_idle_bot (bot_pool after_release) = Some ''BOT2''"
proof -
  have pool: "map (\<lambda>(n, d). (n, assigned d, last_used d)) (bot_pool after_release) =
     [(''BOT1'', None, 101), (''BOT2'', None, 0), (''BOT3'', None, 0)]"
    by (simp add: after_release_def eval_defs two_loops_def)
  have st: "loop_states after_release ''B'' = Some (0, None)"
    by (simp add: after_release_def eval_defs two_loops_def)
  have u: "update_bot_assignment delivered two_loops ''B'' 1 after_release =
     (Inr (), snd (update_bot_assignment delivered two_loops ''B'' 1 after_release))"
    by (simp add: after_release_def eval_defs two_loops_def)
  have st': "loop_states (snd (update_bot_assignment delivered two_loops ''B'' 1 after_release)) ''B'' =
     Some (1, Some ''BOT2'')"
    by (simp add: after_release_def eval_defs two_loops_def)
  from lru_bot_selection [OF u st st'] have "find_idle_bot (bot_pool after_release) = Some ''BOT2''"
    by blast
  with pool st u st' show ?thesis by blast
qed

subsection \<open>C6: an exhausted pool\<close>

text \<open>
  Claim C6. If every bot of the pool is assigned and a state other than OFF is requested
  for a loop that is OFF with no bot, \<^verbatim>\<open>_update_bot_assignment\<close> returns normally and the
  whole state is as before: no request was sent, \<^verbatim>\<open>loop_states\<close> and \<^verbatim>\<open>bot_pool\<close> are
  unchanged, the loop is still OFF. This holds in every environment, also one that
  delivers no request.
\<close>

theorem pool_exhaustion_noop:
  assumes "loop_configs LOOPS lp = Some cfg"
    and "loop_states w lp = Some (0, None)"
    and "\<forall>(n, d) \<in> set (bot_pool w). assigned d \<noteq> None"
    and "rq \<noteq> 0"
  shows "update_bot_assignment E LOOPS lp rq w = (Inr (), w)"
proof -
  from assms(3) have "find_idle_bot (bot_pool w) = None" by (simp add: find_idle_bot_None)
  with assms(1,2,4) set_loop_state_same [OF assms(2)] show ?thesis
    by (simp add: update_bot_assignment_def release_loop_def truthy_def Let_def)
qed

theorem pool_exhaustion_noop_witness:
  "map (\<lambda>(n, d). (n, assigned d)) (bot_pool (clicks delivered four_loops [''A'', ''B'', ''C''])) =
     [(''BOT1'', Some ''A''), (''BOT2'', Some ''B''), (''BOT3'', Some ''C'')] \<and>
   loop_states (clicks delivered four_loops [''A'', ''B'', ''C'']) ''D'' = Some (0, None) \<and>
   update_bot_assignment refused four_loops ''D'' 1 (clicks delivered four_loops [''A'', ''B'', ''C'']) =
     (Inr (), clicks delivered four_loops [''A'', ''B'', ''C''])"
proof -
  let ?w = "clicks delivered four_loops [''A'', ''B'', ''C'']"
  have pool: "map (\<lambda>(n, d). (n, assigned d)) (bot_pool ?w) =
     [(''BOT1'', Some ''A''), (''BOT2'', Some ''B''), (''BOT3'', Some ''C'')]"
    by (simp add: eval_defs four_loops_def)
  have cfg: "loop_configs four_loops ''D'' = Some \<lparr>name = ''D'', can_listen = True, can_talk = True\<rparr>"
    by (simp add: loop_configs_def four_loops_def)
  have st: "loop_states ?w ''D'' = Some (0, None)"
    by (simp add: eval_defs four_loops_def)
  have busy: "\<forall>(n, d) \<in> set (bot_pool ?w). assigned d \<noteq> None"
    by (simp add: eval_defs four_loops_def)
  have nz: "(1::int) \<noteq> 0" by simp
  from pool_exhaustion_noop [OF cfg st busy nz, of refused] pool st
  show ?thesis by simp
qed

section \<open>Proofs about the bot\<close>

lemmas bot_defs = join_def talk_def mute_def enable_audio_delay_def disable_audio_delay_def
  set_volume_route_def set_volume_def mic_callback_def delay_audio_worker_get_def
  delay_audio_worker_wake_def play_if_talking_def add_sound_def wait_needed_def

lemma flush_empty [simp]: "flush q = []"
  by (induction q) simp_all

lemma clamp_unit: "in_unit (py_max (Finite 0) (py_min (Finite 1) v))"
  by (cases v) (auto simp: in_unit_def py_max_def py_min_def)

lemma clamp_cases:
  "py_max (Finite 0) (py_min (Finite 1) v) =
     (case v of Finite x \<Rightarrow> if x < 0 then Finite 0 else if 1 < x then Finite 1 else Finite x
      | PosInf \<Rightarrow> Finite 1 | NegInf \<Rightarrow> Finite 0 | NaN \<Rightarrow> Finite 1)"
  by (cases v) (auto simp: py_max_def py_min_def)

lemma bot_step_volume: "in_unit (playback_volume s) \<Longrightarrow> in_unit (playback_volume (bot_step e s))"
  by (cases e)
     (auto simp: bot_defs Let_def clamp_unit
       split: sum.splits option.splits list.splits worker.splits prod.splits pyfloat.splits)

lemma bot_run_volume: "in_unit (playback_volume s) \<Longrightarrow> in_unit (playback_volume (bot_run es s))"
  by (induction es arbitrary: s) (simp_all add: bot_step_volume)

lemma bot_step_muted:
  "\<not> streaming s \<Longrightarrow> e \<noteq> Talk \<Longrightarrow>
   \<not> streaming (bot_step e s) \<and> added_sound (bot_step e s) = added_sound s"
  by (cases e)
     (auto simp: bot_defs Let_def
       split: sum.splits option.splits list.splits worker.splits prod.splits pyfloat.splits)

lemma bot_run_muted:
  "\<not> streaming s \<Longrightarrow> Talk \<notin> set es \<Longrightarrow> added_sound (bot_run es s) = added_sound s"
proof (induction es arbitrary: s)
  case Nil
  show ?case by simp
next
  case (Cons e es)
  from Cons.prems have "\<not> streaming (bot_step e s)" "added_sound (bot_step e s) = added_sound s"
    using bot_step_muted [of s e] by auto
  with Cons.IH [of "bot_step e s"] Cons.prems show ?case by simp
qed

lemma bot_step_only_if_streaming:
  "added_sound (bot_step e s) \<noteq> added_sound s \<Longrightarrow> streaming s \<and> sound_output s"
  by (cases e)
     (auto simp: bot_defs Let_def
       split: sum.splits option.splits list.splits worker.splits prod.splits pyfloat.splits if_splits)

lemma wake_plays:
  "delay_thread s = Sleeping (t, p) u \<Longrightarrow> u \<le> t' \<Longrightarrow>
   added_sound (bot_step (WorkerWake t') s) =
     (if streaming s \<and> sound_output s then added_sound s @ [p] else added_sound s)"
  by (simp add: bot_defs)

lemma capture_queues:
  "audio_delay_enabled s \<Longrightarrow>
   added_sound (mic_callback t (Some p) s) = added_sound s \<and>
   audio_delay_queue (mic_callback t (Some p) s) = audio_delay_queue s @ [(t, p)]"
  by (simp add: bot_defs)

lemma drained_step:
  assumes "audio_delay_queue s = []" and "\<not> is_capture e"
  shows "audio_delay_queue (bot_step e s) = [] \<and> held (bot_step e s) \<subseteq> held s \<and>
         (\<exists>ps. added_sound (bot_step e s) = added_sound s @ ps \<and> set ps \<subseteq> held s)"
  using assms
  by (cases e) (auto simp: bot_defs held_def Let_def split: sum.splits worker.splits pyfloat.splits)

lemma drained_run:
  assumes "\<forall>e \<in> set es. \<not> is_capture e"
  shows "audio_delay_queue s = [] \<Longrightarrow>
         \<exists>ps. added_sound (bot_run es s) = added_sound s @ ps \<and> set ps \<subseteq> held s"
  using assms
proof (induction es arbitrary: s)
  case Nil
  show ?case by simp
next
  case (Cons e es)
  from Cons.prems have ne: "\<not> is_capture e" and rest: "\<forall>e \<in> set es. \<not> is_capture e" by simp_all
  from drained_step [OF Cons.prems(1) ne] obtain ps1 where
    q: "audio_delay_queue (bot_step e s) = []" and h: "held (bot_step e s) \<subseteq> held s"
    and p1: "added_sound (bot_step e s) = added_sound s @ ps1" "set ps1 \<subseteq> held s"
    by blast
  from Cons.IH [OF q rest] obtain ps2 where
    p2: "added_sound (bot_run es (bot_step e s)) = added_sound (bot_step e s) @ ps2"
      "set ps2 \<subseteq> held (bot_step e s)"
    by blast
  from p1 p2 h have "added_sound (bot_run (e # es) s) = added_sound s @ (ps1 @ ps2) \<and>
     set (ps1 @ ps2) \<subseteq> held s" by auto
  then show ?case by blast
qed

lemma disable_facts:
  "audio_delay_queue (disable_audio_delay s) = []"
  "\<not> audio_delay_enabled (disable_audio_delay s)"
  "added_sound (disable_audio_delay s) = added_sound s"
  "held (disable_audio_delay s) = held s"
  by (simp_all add: disable_audio_delay_def held_def)

lemma get_while_off:
  "\<not> audio_delay_enabled s \<Longrightarrow> delay_thread s = Blocked \<Longrightarrow> audio_delay_queue s = f # q \<Longrightarrow>
   bot_step (WorkerGet t) s = s\<lparr>audio_delay_queue := q\<rparr>"
  by (cases f) (simp add: bot_defs)

lemma captured_eval:
  "streaming captured"
  "delay_thread captured = Sleeping (10, [1, 2]) 13"
  "sound_output captured"
  "added_sound captured = []"
  by (simp_all add: captured_def new_bot_def bot_defs Let_def)

lemma queued_eval:
  "audio_delay_queue queued = [(10, [1]), (11, [2])]"
  "delay_thread queued = Blocked"
  "streaming queued"
  "added_sound queued = []"
  "held queued = {}"
  by (simp_all add: queued_def new_bot_def bot_defs held_def Let_def)

section \<open>The claims about the bot\<close>

subsection \<open>C7: a mute binds at playback time\<close>

text \<open>
  Claim C7. With delay mode on, the microphone callback queues the frame and plays
  nothing, whatever \<^verbatim>\<open>streaming\<close> is at capture. When the worker wakes on the frame it
  holds, its wait over, the frame is handed to the sound output exactly if \<^verbatim>\<open>streaming\<close> (and the sound
  output) is true in the state at that moment; no step of the bot plays anything unless
  \<^verbatim>\<open>streaming\<close> is true when the step is taken. Hence once \<^verbatim>\<open>streaming\<close> is false, as
  after a mute, and as long as no \<^verbatim>\<open>talk\<close> follows, nothing is played, however the
  other steps interleave: a frame captured while the bot was talking is not played.
\<close>

theorem late_binding_mute:
  "(audio_delay_enabled s \<longrightarrow>
      added_sound (mic_callback t (Some p) s) = added_sound s \<and>
      audio_delay_queue (mic_callback t (Some p) s) = audio_delay_queue s @ [(t, p)]) \<and>
   (delay_thread s = Sleeping (t, p) u \<longrightarrow> u \<le> t' \<longrightarrow>
      added_sound (bot_step (WorkerWake t') s) =
        (if streaming s \<and> sound_output s then added_sound s @ [p] else added_sound s)) \<and>
   (added_sound (bot_step e s) \<noteq> added_sound s \<longrightarrow> streaming s \<and> sound_output s) \<and>
   (\<not> streaming s \<longrightarrow> Talk \<notin> set es \<longrightarrow> added_sound (bot_run es s) = added_sound s)"
  using capture_queues [of s t p] wake_plays [of s t p u t'] bot_step_only_if_streaming [of e s]
    bot_run_muted [of s es]
  by blast

theorem late_binding_mute_witness:
  "streaming captured \<and>
   delay_thread captured = Sleeping (10, [1, 2]) 13 \<and>
   added_sound (bot_step (WorkerWake 13) captured) = added_sound captured @ [[1, 2]] \<and>
   \<not> streaming (mute captured) \<and>
   delay_thread (mute captured) = Sleeping (10, [1, 2]) 13 \<and>
   added_sound (bot_run [SoundOutput True, WorkerWake 13, WorkerGet 13] (mute captured)) =
     added_sound (mute captured)"
proof -
  have m: "\<not> streaming (mute captured)" "delay_thread (mute captured) = Sleeping (10, [1, 2]) 13"
    by (simp_all add: mute_def captured_eval)
  have "added_sound (bot_step (WorkerWake 13) captured) = added_sound captured @ [[1, 2]]"
    using late_binding_mute [of captured 10 "[1, 2]" 13 13 "WorkerWake 13" "[]"] captured_eval
    by simp
  moreover have "added_sound (bot_run [SoundOutput True, WorkerWake 13, WorkerGet 13] (mute captured)) =
     added_sound (mute captured)"
    using late_binding_mute [of "mute captured" 10 "[1, 2]" 13 13 "WorkerWake 13"
        "[SoundOutput True, WorkerWake 13, WorkerGet 13]"] m
    by simp
  ultimately show ?thesis using m captured_eval by simp
qed

subsection \<open>C8: disabling the delay discards the queue\<close>

text \<open>
  Claim C8. \<^verbatim>\<open>disable_audio_delay\<close> leaves the flag off and the delay queue empty, and
  plays nothing while it drains. From then on, as long as no new frame is captured, the
  only frame that can still reach the sound output is the one the worker had already
  taken from the queue and is asleep on: none of the frames that were in the queue is
  played. And whenever the worker takes a frame while the flag is off, it drops the frame:
  the state is as before but for the frame, nothing is played and the worker does not
  wait on it.
\<close>

theorem disable_discards_queued:
  "audio_delay_queue (disable_audio_delay s) = [] \<and>
   \<not> audio_delay_enabled (disable_audio_delay s) \<and>
   added_sound (disable_audio_delay s) = added_sound s \<and>
   ((\<forall>e \<in> set es. \<not> is_capture e) \<longrightarrow>
      (\<exists>ps. added_sound (bot_run es (disable_audio_delay s)) = added_sound s @ ps \<and>
            set ps \<subseteq> held s)) \<and>
   (\<not> audio_delay_enabled s \<longrightarrow> delay_thread s = Blocked \<longrightarrow> audio_delay_queue s = f # q \<longrightarrow>
      bot_step (WorkerGet t) s = s\<lparr>audio_delay_queue := q\<rparr>)"
  using drained_run [of es "disable_audio_delay s"] get_while_off [of s f q t]
  by (simp add: disable_facts)

theorem disable_discards_queued_witness:
  "audio_delay_queue queued = [(10, [1]), (11, [2])] \<and>
   streaming queued \<and>
   audio_delay_queue (disable_audio_delay queued) = [] \<and>
   added_sound (bot_run
      [WorkerGet 13, WorkerWake 16, DelayOn (Some (Finite 3)), WorkerGet 17, WorkerWake 20]
      (disable_audio_delay queued)) = added_sound queued \<and>
   audio_delay_queue switching_off = [(10, [1]), (11, [2])] \<and>
   bot_step (WorkerGet 12) switching_off = switching_off\<lparr>audio_delay_queue := [(11, [2])]\<rparr>"
proof -
  let ?es = "[WorkerGet 13, WorkerWake 16, DelayOn (Some (Finite 3)), WorkerGet 17, WorkerWake 20]"
  have off: "\<not> audio_delay_enabled switching_off" "delay_thread switching_off = Blocked"
    "audio_delay_queue switching_off = [(10, [1]), (11, [2])]"
    by (simp_all add: switching_off_def queued_eval)
  have nc: "\<forall>e \<in> set ?es. \<not> is_capture e" by simp
  from disable_discards_queued [of queued ?es] nc queued_eval
  have "added_sound (bot_run ?es (disable_audio_delay queued)) = added_sound queued"
    by simp
  moreover from disable_discards_queued [of switching_off "[]" "(10, [1])" "[(11, [2])]" 12] off
  have "bot_step (WorkerGet 12) switching_off = switching_off\<lparr>audio_delay_queue := [(11, [2])]\<rparr>"
    by simp
  moreover from disable_discards_queued [of queued "[]"]
  have "audio_delay_queue (disable_audio_delay queued) = []" by simp
  ultimately show ?thesis using queued_eval off by simp
qed

subsection \<open>C10: the volume stays in the unit interval\<close>

text \<open>
  Claim C10. \<^verbatim>\<open>set_volume\<close> stores its argument clamped to the unit interval: a float
  below 0 becomes 0.0, a float above 1 becomes 1.0, any float between is kept (and plus
  infinity and NaN become 1.0, minus infinity 0.0). A new bot has volume 1.0, and after
  any steps of the bot, among them \<^verbatim>\<open>/set_volume\<close> requests with any argument, its
  \<^verbatim>\<open>playback_volume\<close> is a float between 0 and 1.
\<close>

theorem set_volume_unit_interval:
  "playback_volume (set_volume v s) =
     (case v of Finite x \<Rightarrow> if x < 0 then Finite 0 else if 1 < x then Finite 1 else Finite x
      | PosInf \<Rightarrow> Finite 1 | NegInf \<Rightarrow> Finite 0 | NaN \<Rightarrow> Finite 1) \<and>
   in_unit (playback_volume (set_volume v s)) \<and>
   playback_volume (new_bot out) = Finite 1 \<and>
   in_unit (playback_volume (bot_run es (new_bot out)))"
proof -
  have "in_unit (playback_volume (new_bot out))" by (simp add: new_bot_def in_unit_def)
  then have "in_unit (playback_volume (bot_run es (new_bot out)))" by (rule bot_run_volume)
  moreover have "playback_volume (set_volume v s) = py_max (Finite 0) (py_min (Finite 1) v)"
    by (simp add: set_volume_def)
  moreover have "playback_volume (new_bot out) = Finite 1" by (simp add: new_bot_def)
  ultimately show ?thesis using clamp_cases [of v] clamp_unit [of v] by simp
qed

theorem set_volume_unit_interval_witness:
  "playback_volume (set_volume (Finite 2.5) (new_bot True)) = Finite 1 \<and>
   playback_volume (set_volume (Finite (- 3)) (new_bot True)) = Finite 0 \<and>
   playback_volume (set_volume (Finite 0.4) (new_bot True)) = Finite 0.4 \<and>
   playback_volume (set_volume NaN (new_bot True)) = Finite 1 \<and>
   in_unit (playback_volume
     (bot_run [SetVolume (Inr (Finite 7)), SetVolume (Inl ValueError), Talk] (new_bot True)))"
  using set_volume_unit_interval [of "Finite 2.5" "new_bot True" True "[]"]
    set_volume_unit_interval [of "Finite (- 3)" "new_bot True" True "[]"]
    set_volume_unit_interval [of "Finite 0.4" "new_bot True" True "[]"]
    set_volume_unit_interval [of NaN "new_bot True" True
      "[SetVolume (Inr (Finite 7)), SetVolume (Inl ValueError), Talk]"]
  by simp

end
